theory Spec2Isabelle
  imports Main "HOL-Library.Word" "HOL-Library.Code_Target_Nat"
begin

unbundle bit_operations_syntax

section \<open>Constants and primitive operations of lz77.h\<close>

type_synonym byte = "8 word"

abbreviation (input) MAX_COPY :: nat where "MAX_COPY \<equiv> 32"
abbreviation (input) MAX_LEN :: nat where "MAX_LEN \<equiv> 264"
abbreviation (input) MAX_DISTANCE :: nat where "MAX_DISTANCE \<equiv> 8192"
abbreviation (input) MIN_MATCH_LEN :: nat where "MIN_MATCH_LEN \<equiv> 3"
abbreviation (input) MIN_INPUT_SIZE :: nat where "MIN_INPUT_SIZE \<equiv> 13"
abbreviation (input) HASH_LOG :: nat where "HASH_LOG \<equiv> 13"
abbreviation (input) HASH_SIZE :: nat where "HASH_SIZE \<equiv> 8192"
abbreviation (input) COMPRESS_OVERHEAD :: nat where "COMPRESS_OVERHEAD \<equiv> 128"

text \<open>
  Positions in a buffer are natural numbers (offsets from the buffer's start pointer).
  A value stored in a \<open>uint32_t\<close> is a natural number reduced modulo \<open>2 ^ 32\<close>;
  \<open>u32\<close> is the conversion, \<open>dist32\<close> the difference of two positions converted to
  \<open>uint32_t\<close> (it wraps when the reference lies after the cursor).
\<close>

definition u32 :: "nat \<Rightarrow> nat" where
  "u32 x = x mod 2 ^ 32"

definition dist32 :: "nat \<Rightarrow> nat \<Rightarrow> nat" where
  "dist32 ip ref = nat ((int ip - int ref) mod 2 ^ 32)"

definition lz77_hash :: "32 word \<Rightarrow> 32 word" where
  "lz77_hash v = drop_bit (32 - HASH_LOG) ((v XOR drop_bit 15 v) * 0x27d4eb2d)"

text \<open>The unaligned 32-bit read, on a little-endian machine.\<close>

definition lz77_read32 :: "byte list \<Rightarrow> nat \<Rightarrow> 32 word" where
  "lz77_read32 b p =
     ucast (b ! p) OR push_bit 8 (ucast (b ! (p + 1))) OR
     push_bit 16 (ucast (b ! (p + 2))) OR push_bit 24 (ucast (b ! (p + 3)))"

definition seq24 :: "byte list \<Rightarrow> nat \<Rightarrow> 32 word" where
  "seq24 b p = lz77_read32 b p AND 0xffffff"

definition slot :: "32 word \<Rightarrow> nat" where
  "slot v = unat (lz77_hash v)"

function match_scan :: "byte list \<Rightarrow> nat \<Rightarrow> nat \<Rightarrow> nat \<Rightarrow> nat" where
  "match_scan b ref_ptr ip_ptr ip_end =
     (if ip_ptr < ip_end \<and> b ! ref_ptr = b ! ip_ptr
      then match_scan b (ref_ptr + 1) (ip_ptr + 1) ip_end
      else ref_ptr)"
  by pat_completeness auto
termination
  by (relation "measure (\<lambda>(b, r, p, e). e - p)") auto

declare match_scan.simps [simp del]

definition match_len :: "byte list \<Rightarrow> nat \<Rightarrow> nat \<Rightarrow> nat \<Rightarrow> nat" where
  "match_len b ref_ptr ip_ptr ip_end = match_scan b ref_ptr ip_ptr ip_end - ref_ptr"

section \<open>Token encoder\<close>

text \<open>
  The encoders only ever append at the write cursor \<open>op\<close>, so each returns the bytes
  it appends. \<open>match_chunks\<close> is the body of \<open>match\<close> after \<open>--distance\<close>; a byte
  store truncates to 8 bits (\<open>of_nat\<close> into \<open>8 word\<close>).
\<close>

function match_chunks :: "nat \<Rightarrow> nat \<Rightarrow> byte list" where
  "match_chunks len distance =
     (if len > MAX_LEN - 2 then
        [of_nat (7 * 32 + distance div 256), of_nat (MAX_LEN - 2 - 7 - 2),
         of_nat (distance mod 256)]
        @ match_chunks (len - (MAX_LEN - 2)) distance
      else
        [of_nat ((if len < 7 then len else 7) * 32 OR distance div 256)]
        @ (if len \<ge> 7 then [of_nat (len - 7)] else [])
        @ [of_nat (distance mod 256)])"
  by pat_completeness auto
termination
  by (relation "measure (\<lambda>(len, d). len)") auto

declare match_chunks.simps [simp del]

definition match :: "nat \<Rightarrow> nat \<Rightarrow> byte list" where
  "match len distance = match_chunks len (nat ((int distance - 1) mod 2 ^ 32))"

function literals :: "nat \<Rightarrow> byte list \<Rightarrow> nat \<Rightarrow> byte list" where
  "literals runs inp src =
     (if runs \<ge> MAX_COPY then
        (of_nat (MAX_COPY - 1) # take MAX_COPY (drop src inp))
        @ literals (runs - MAX_COPY) inp (src + MAX_COPY)
      else if runs \<noteq> 0 then of_nat (runs - 1) # take runs (drop src inp)
      else [])"
  by pat_completeness auto
termination
  by (relation "measure (\<lambda>(runs, inp, src). runs)") auto

declare literals.simps [simp del]

text \<open>
  Memory accesses outside a buffer are undefined behaviour in C; the model makes them
  values of type \<open>fault\<close>, distinct from every value the functions return.
\<close>

datatype fault = ReadPastInput | WritePastOutput | RefBeforeOutput | OverlappingCopy

section \<open>Compressor\<close>

text \<open>
  The hash table \<open>htab\<close> (the workspace seen as \<open>uint32_t\<close> slots) is a function from
  the slot index to the stored position; \<open>slot\<close> only yields indices below
  \<open>HASH_SIZE\<close>, and \<open>memset(htab, 0, LZ77_WORKMEM_SIZE)\<close> makes every slot 0.
  \<open>find_match\<close> is the \<open>do ... while (seq != cmp)\<close> loop; it returns the
  cursor, the candidate \<open>ref\<close>, its \<open>distance\<close> and the updated table.
\<close>

function find_match ::
  "byte list \<Rightarrow> nat \<Rightarrow> (nat \<Rightarrow> nat) \<Rightarrow> nat \<Rightarrow> nat \<times> nat \<times> nat \<times> (nat \<Rightarrow> nat)" where
  "find_match inp ip_limit htab ip =
     (let seq = seq24 inp ip;
          hash = slot seq;
          ref = htab hash;
          distance = dist32 ip ref;
          htab' = htab(hash := u32 ip);
          cmp = (if distance < MAX_DISTANCE then seq24 inp ref else 0x1000000)
      in
      if ip \<ge> ip_limit then (ip, ref, distance, htab')
      else if seq \<noteq> cmp then find_match inp ip_limit htab' (ip + 1)
      else (ip + 1, ref, distance, htab'))"
  by pat_completeness auto
termination
  by (relation "measure (\<lambda>(inp, ip_limit, htab, ip). ip_limit - ip)") auto

declare find_match.simps [simp del]

text \<open>
  One lazy-matching step: the source has this block twice, for \<open>ip + 1\<close> and
  \<open>ip + 2\<close>; \<open>k\<close> is that offset, \<open>best\<close> the current
  \<open>(lazy_step, len, distance, ref)\<close>.
\<close>

definition lazy_probe ::
  "byte list \<Rightarrow> nat \<Rightarrow> (nat \<Rightarrow> nat) \<Rightarrow> nat \<Rightarrow> nat \<Rightarrow> nat \<Rightarrow> nat \<times> nat \<times> nat \<times> nat
     \<Rightarrow> nat \<times> nat \<times> nat \<times> nat" where
  "lazy_probe inp n htab ip_limit ip k best =
     (case best of (lazy_step, len, distance, ref) \<Rightarrow>
        if ip + k < ip_limit then
          let seq_next = seq24 inp (ip + k);
              hash_next = slot seq_next;
              ref_next = htab hash_next;
              distance_next = dist32 (ip + k) ref_next
          in
          if distance_next < MAX_DISTANCE \<and> seq24 inp ref_next = seq_next then
            let len_next =
                  match_len inp (ref_next + MIN_MATCH_LEN) (ip + k + MIN_MATCH_LEN) n + 1
            in
            if len_next > len + (if len < 7 then 1 else 0)
            then (k, len_next, distance_next, ref_next)
            else best
          else best
        else best)"

text \<open>The hash update at the match boundary; returns the advanced cursor.\<close>

definition seed_boundary :: "byte list \<Rightarrow> nat \<Rightarrow> (nat \<Rightarrow> nat) \<Rightarrow> nat \<Rightarrow> nat \<times> (nat \<Rightarrow> nat)" where
  "seed_boundary inp n htab ip =
     (if ip + 4 \<le> n then
        let seq = lz77_read32 inp ip;
            htab1 = htab(slot (seq AND 0xffffff) := u32 ip);
            ip1 = ip + 1;
            seq1 = drop_bit 8 seq;
            htab2 = htab1(slot seq1 := u32 ip1)
        in (ip1 + 1, htab2)
      else
        let ip1 = (if ip < n then ip + 1 else ip);
            ip2 = (if ip1 < n then ip1 + 1 else ip1)
        in (ip2, htab))"

definition backfill :: "byte list \<Rightarrow> nat \<Rightarrow> (nat \<Rightarrow> nat) \<Rightarrow> nat \<Rightarrow> nat \<Rightarrow> (nat \<Rightarrow> nat)" where
  "backfill inp n htab ip len =
     (if len > 12 then
        let p = ip - len + 5 in
        if p > 0 \<and> p + 3 < ip \<and> p + 4 \<le> n
        then htab(slot (seq24 inp p) := u32 p)
        else htab
      else htab)"

text \<open>
  The calls \<open>op = literals(runs, src, op)\<close> and \<open>op = match(len, distance, op)\<close>
  that the compressor makes, in order; the output is the concatenation of what they append.
\<close>

datatype emit = Literals nat nat | Match nat nat

fun encode :: "byte list \<Rightarrow> emit \<Rightarrow> byte list" where
  "encode inp (Literals runs src) = literals runs inp src"
| "encode inp (Match len distance) = match len distance"

lemma find_match_ip:
  "find_match inp ip_limit htab ip = (ip1, ref, distance, htab1) \<Longrightarrow>
   ip \<le> ip1 \<and> (ip1 < ip_limit \<longrightarrow> ip < ip1)"
proof (induction inp ip_limit htab ip rule: find_match.induct)
  case (1 inp ip_limit htab ip)
  let ?h = "slot (seq24 inp ip)"
  let ?d = "dist32 ip (htab ?h)"
  let ?cmp = "if ?d < MAX_DISTANCE then seq24 inp (htab ?h) else 0x1000000"
  have eq: "find_match inp ip_limit htab ip =
      (if ip \<ge> ip_limit then (ip, htab ?h, ?d, htab(?h := u32 ip))
       else if seq24 inp ip \<noteq> ?cmp then find_match inp ip_limit (htab(?h := u32 ip)) (ip + 1)
       else (ip + 1, htab ?h, ?d, htab(?h := u32 ip)))"
    by (subst find_match.simps) (simp only: Let_def)
  show ?case
  proof (cases "ip \<ge> ip_limit")
    case True
    then show ?thesis using "1.prems" eq by simp
  next
    case False
    show ?thesis
    proof (cases "seq24 inp ip \<noteq> ?cmp")
      case ne: True
      have rec: "find_match inp ip_limit (htab(?h := u32 ip)) (ip + 1) = (ip1, ref, distance, htab1)"
        using "1.prems" eq False ne by simp
      have "ip + 1 \<le> ip1 \<and> (ip1 < ip_limit \<longrightarrow> ip + 1 < ip1)"
        by (rule "1.IH" [OF refl refl refl refl refl refl False ne rec])
      then show ?thesis by simp
    next
      case eq': False
      then show ?thesis using "1.prems" eq False by simp
    qed
  qed
qed

lemma lazy_probe_len:
  "lazy_probe inp n htab ip_limit ip k (ls, len, d, r) = (ls', len', d', r') \<Longrightarrow>
   1 \<le> len \<Longrightarrow> 1 \<le> len'"
  unfolding lazy_probe_def Let_def
  by (auto split: if_splits)

lemma seed_boundary_ip:
  "seed_boundary inp n htab ip = (ip', htab') \<Longrightarrow> ip \<le> ip'"
  unfolding seed_boundary_def Let_def
  by (auto split: if_splits)

text \<open>
  The main loop \<open>while (ip < ip_limit)\<close>. It returns the calls it makes, the final
  \<open>anchor\<close> and the final table.
\<close>

function main_loop ::
  "byte list \<Rightarrow> nat \<Rightarrow> (nat \<Rightarrow> nat) \<Rightarrow> nat \<Rightarrow> nat \<Rightarrow> emit list \<times> nat \<times> (nat \<Rightarrow> nat)" where
  "main_loop inp n htab anchor ip =
     (let ip_limit = n - MIN_INPUT_SIZE in
      if ip < ip_limit then
        case find_match inp ip_limit htab ip of (ip1, ref, distance, htab1) \<Rightarrow>
          if ip1 \<ge> ip_limit then ([], anchor, htab1)
          else
            let ip2 = ip1 - 1;
                lits = (if ip2 > anchor then [Literals (ip2 - anchor) anchor] else []);
                len = match_len inp (ref + MIN_MATCH_LEN) (ip2 + MIN_MATCH_LEN) n + 1;
                best1 = lazy_probe inp n htab1 ip_limit ip2 1 (0, len, distance, ref);
                best2 = lazy_probe inp n htab1 ip_limit ip2 2 best1
            in
            (case best2 of (lazy_step, len', distance', ref') \<Rightarrow>
               let lazy = (if lazy_step > 0 then [Literals lazy_step ip2] else []);
                   ip3 = (if lazy_step > 0 then ip2 + lazy_step else ip2);
                   ip4 = ip3 + len'
               in
               (case seed_boundary inp n htab1 ip4 of (ip5, htab2) \<Rightarrow>
                  let htab3 = backfill inp n htab2 ip5 len' in
                  (case main_loop inp n htab3 ip5 ip5 of (es, anchor', htab') \<Rightarrow>
                     (lits @ lazy @ [Match len' distance'] @ es, anchor', htab'))))
      else ([], anchor, htab))"
  by pat_completeness auto
termination
proof (relation "measure (\<lambda>(inp, n, htab, anchor, ip). (n - MIN_INPUT_SIZE) - ip)")
  show "wf (measure (\<lambda>(inp, n, htab, anchor, ip). (n - MIN_INPUT_SIZE) - ip))"
    by simp
next
  fix inp :: "byte list" and n :: nat and htab :: "(nat \<Rightarrow> nat)" and anchor ip x ip1 :: nat
    and y :: "nat \<times> nat \<times> (nat \<Rightarrow> nat)" and ref :: nat and z :: "nat \<times> (nat \<Rightarrow> nat)"
    and distance :: nat and htab1 :: "(nat \<Rightarrow> nat)" and ip2 :: nat and lits :: "emit list"
    and len :: nat and best1 best2 :: "nat \<times> nat \<times> nat \<times> nat"
    and lazy_step :: nat and r1 :: "nat \<times> nat \<times> nat" and len' :: nat and r2 :: "nat \<times> nat"
    and distance' ref' :: nat and lazy :: "emit list" and ip3 ip4 ip5 :: nat
    and htab2 htab3 :: "(nat \<Rightarrow> nat)"
  assume lim: "x = n - MIN_INPUT_SIZE" "ip < x"
    and fm: "(ip1, y) = find_match inp x htab ip" "(ref, z) = y" "(distance, htab1) = z"
    and nb: "\<not> x \<le> ip1"
    and ip2: "ip2 = ip1 - 1"
    and lits: "lits = (if anchor < ip2 then [Literals (ip2 - anchor) anchor] else [])"
    and len: "len = match_len inp (ref + MIN_MATCH_LEN) (ip2 + MIN_MATCH_LEN) n + 1"
    and b1: "best1 = lazy_probe inp n htab1 x ip2 1 (0, len, distance, ref)"
    and b2: "best2 = lazy_probe inp n htab1 x ip2 2 best1"
    and sp: "(lazy_step, r1) = best2" "(len', r2) = r1" "(distance', ref') = r2"
    and lazy: "lazy = (if 0 < lazy_step then [Literals lazy_step ip2] else [])"
    and ip3: "ip3 = (if 0 < lazy_step then ip2 + lazy_step else ip2)"
    and ip4: "ip4 = ip3 + len'"
    and sb: "(ip5, htab2) = seed_boundary inp n htab1 ip4"
    and bf: "htab3 = backfill inp n htab2 ip5 len'"
  from fm have "find_match inp x htab ip = (ip1, ref, distance, htab1)"
    by metis
  with nb have lt: "ip < ip1"
    using find_match_ip by fastforce
  obtain a b c d where b1': "best1 = (a, b, c, d)"
    by (cases best1) auto
  have "1 \<le> b"
    using lazy_probe_len [of inp n htab1 x ip2 1 0 len distance ref a b c d] b1 b1' len
    by simp
  moreover have "best2 = (lazy_step, len', distance', ref')"
    using sp by metis
  ultimately have "1 \<le> len'"
    using lazy_probe_len [of inp n htab1 x ip2 2 a b c d lazy_step len' distance' ref'] b2 b1'
    by simp
  moreover have "ip4 \<le> ip5"
    using seed_boundary_ip [of inp n htab1 ip4 ip5 htab2] sb by simp
  ultimately show "((inp, n, htab3, ip5, ip5), (inp, n, htab, anchor, ip))
       \<in> measure (\<lambda>(inp, n, htab, anchor, ip). (n - MIN_INPUT_SIZE) - ip)"
    using lt ip2 ip3 ip4 lim nb by (auto split: if_splits)
qed

declare main_loop.simps [simp del]

text \<open>
  Writing the produced bytes \<open>bs\<close> from the start of the output buffer. The encoders
  write consecutive positions from 0, so a write lands outside the buffer exactly when
  \<open>bs\<close> is longer than the buffer.
\<close>

definition store_out ::
  "byte list \<Rightarrow> byte list \<Rightarrow> (nat \<Rightarrow> nat) \<Rightarrow> fault + (int \<times> byte list \<times> (nat \<Rightarrow> nat))" where
  "store_out bs out htab =
     (if length bs > length out then Inl WritePastOutput
      else Inr (int (length bs), bs @ drop (length bs) out, htab))"

definition compress_emits :: "byte list \<Rightarrow> nat \<Rightarrow> emit list \<times> (nat \<Rightarrow> nat)" where
  "compress_emits inp n =
     (case main_loop inp n (\<lambda>_. 0) 0 2 of
        (es, anchor, htab) \<Rightarrow> (es @ [Literals (n - anchor) anchor], htab))"

definition lz77_compress ::
  "byte list \<Rightarrow> int \<Rightarrow> byte list \<Rightarrow> (nat \<Rightarrow> nat) \<Rightarrow> fault + (int \<times> byte list \<times> (nat \<Rightarrow> nat))" where
  "lz77_compress inp len out workmem =
     (if len \<le> 0 then Inr (0, out, workmem)
      else if len < int MIN_INPUT_SIZE then
        store_out (literals (nat len) inp 0) out workmem
      else
        case compress_emits inp (nat len) of
          (es, htab) \<Rightarrow> store_out (concat (map (encode inp) es)) out htab)"

section \<open>Token decoder\<close>

text \<open>
  Every memory access of \<open>lz77_decompress\<close> is a checked primitive: a read of the
  input at or past the declared length, a write of the output at or past \<open>max_out\<close>,
  a read of the output before its origin, or a \<open>memcpy\<close> whose ranges overlap is
  a \<open>fault\<close> (undefined behaviour in C), distinct from the function returning 0.
\<close>

definition memcpy :: "byte list \<Rightarrow> nat \<Rightarrow> byte list \<Rightarrow> nat \<Rightarrow> nat \<Rightarrow> byte list" where
  "memcpy dst d src s cnt = take d dst @ take cnt (drop s src) @ drop (d + cnt) dst"

definition read_in :: "byte list \<Rightarrow> nat \<Rightarrow> nat \<Rightarrow> fault + byte" where
  "read_in inp n ip = (if ip < n then Inr (inp ! ip) else Inl ReadPastInput)"

definition copy_in ::
  "byte list \<Rightarrow> nat \<Rightarrow> nat \<Rightarrow> byte list \<Rightarrow> int \<Rightarrow> nat \<Rightarrow> nat \<Rightarrow> fault + byte list" where
  "copy_in inp n ip out max_out op cnt =
     (if ip + cnt > n then Inl ReadPastInput
      else if int (op + cnt) > max_out then Inl WritePastOutput
      else Inr (memcpy out op inp ip cnt))"

definition copy_ref :: "byte list \<Rightarrow> int \<Rightarrow> nat \<Rightarrow> int \<Rightarrow> nat \<Rightarrow> fault + byte list" where
  "copy_ref out max_out op ref cnt =
     (if ref < 0 then Inl RefBeforeOutput
      else if int (op + cnt) > max_out then Inl WritePastOutput
      else if ref + int cnt > int op then Inl OverlappingCopy
      else Inr (memcpy out op out (nat ref) cnt))"

text \<open>
  The overlap-safe copy loop of a match. In the source \<open>distance = op - ref\<close> is at
  least 1 at the only call site; the test \<open>distance = 0\<close> (where the C loop would not
  advance) only makes the definition total.
\<close>

function copy_chunks ::
  "byte list \<Rightarrow> int \<Rightarrow> nat \<Rightarrow> nat \<Rightarrow> nat \<Rightarrow> int \<Rightarrow> fault + (nat \<times> byte list)" where
  "copy_chunks out max_out remain distance op ref =
     (if remain = 0 \<or> distance = 0 then Inr (op, out)
      else
        let chunk = (if remain < distance then remain else distance) in
        case copy_ref out max_out op ref chunk of
          Inl f \<Rightarrow> Inl f
        | Inr out' \<Rightarrow>
            copy_chunks out' max_out (remain - chunk) distance (op + chunk) (ref + int chunk))"
  by pat_completeness auto
termination
  by (relation "measure (\<lambda>(out, max_out, remain, distance, op, ref). remain)") auto

declare copy_chunks.simps [simp del]

definition ip_bound :: "nat \<Rightarrow> nat" where
  "ip_bound n = (if n \<ge> 2 then n - 2 else 0)"

text \<open>
  One pass through the body of \<open>while (1)\<close> up to the test \<open>ip > ip_bound\<close>:
  \<open>Stop\<close> is \<open>return 0\<close>, \<open>Cont ip op out\<close> the state after the token.
\<close>

datatype token_result = Stop "byte list" | Cont nat nat "byte list"

text \<open>
  The header of a match token, read after its control byte: \<open>None\<close> is the
  \<open>return 0\<close> of a truncated extended token, \<open>Some (len, back, ip)\<close> gives the
  final length (after \<open>len += 3\<close>), the offset \<open>back = ofs + 1 + *ip\<close> that the
  source subtracts from \<open>op\<close> to obtain \<open>ref\<close>, and the input cursor after the header.
\<close>

definition match_header ::
  "byte list \<Rightarrow> nat \<Rightarrow> nat \<Rightarrow> nat \<Rightarrow> fault + (nat \<times> nat \<times> nat) option" where
  "match_header inp n ctrl ip =
     (let len = ctrl div 32 - 1;
          ofs = (ctrl mod 32) * 256
      in
      if len = 6 \<and> ip > ip_bound n then Inr None
      else
        case (if len = 6 then read_in inp n ip else Inr 0) of
          Inl f \<Rightarrow> Inl f
        | Inr ext \<Rightarrow>
            let len1 = (if len = 6 then len + unat ext else len);
                ip1 = (if len = 6 then ip + 1 else ip)
            in
            (case read_in inp n ip1 of
               Inl f \<Rightarrow> Inl f
             | Inr lo \<Rightarrow> Inr (Some (len1 + 3, ofs + 1 + unat lo, ip1 + 1))))"

definition dec_match ::
  "byte list \<Rightarrow> nat \<Rightarrow> int \<Rightarrow> nat \<Rightarrow> nat \<Rightarrow> nat \<Rightarrow> byte list \<Rightarrow> fault + token_result" where
  "dec_match inp n max_out ctrl ip op out =
     (case match_header inp n ctrl ip of
        Inl f \<Rightarrow> Inl f
      | Inr None \<Rightarrow> Inr (Stop out)
      | Inr (Some (len, back, ip')) \<Rightarrow>
          let ref = int op - int back in
          if int op + int len > max_out \<or> ref < 0 then Inr (Stop out)
          else
            (case copy_chunks out max_out len (nat (int op - ref)) op ref of
               Inl f \<Rightarrow> Inl f
             | Inr (op', out') \<Rightarrow> Inr (Cont ip' op' out')))"

definition dec_literal ::
  "byte list \<Rightarrow> nat \<Rightarrow> int \<Rightarrow> nat \<Rightarrow> nat \<Rightarrow> nat \<Rightarrow> byte list \<Rightarrow> fault + token_result" where
  "dec_literal inp n max_out ctrl ip op out =
     (let ctrl1 = ctrl + 1 in
      if int op + int ctrl1 > max_out \<or> ip + ctrl1 > n then Inr (Stop out)
      else
        case copy_in inp n ip out max_out op ctrl1 of
          Inl f \<Rightarrow> Inl f
        | Inr out' \<Rightarrow> Inr (Cont (ip + ctrl1) (op + ctrl1) out'))"

definition dec_token ::
  "byte list \<Rightarrow> nat \<Rightarrow> int \<Rightarrow> nat \<Rightarrow> nat \<Rightarrow> nat \<Rightarrow> byte list \<Rightarrow> fault + token_result" where
  "dec_token inp n max_out ctrl ip op out =
     (if ctrl \<ge> 32 then dec_match inp n max_out ctrl ip op out
      else dec_literal inp n max_out ctrl ip op out)"

lemma match_header_ip:
  "match_header inp n ctrl ip = Inr (Some (len, back, ip')) \<Longrightarrow> ip < ip'"
  unfolding match_header_def Let_def
  by (simp split: if_splits sum.splits)

lemma dec_token_ip:
  assumes "dec_token inp n max_out ctrl ip op out = Inr (Cont ip' op' out')"
  shows "ip \<le> ip'"
proof (cases "ctrl \<ge> 32")
  case True
  with assms have "dec_match inp n max_out ctrl ip op out = Inr (Cont ip' op' out')"
    by (simp add: dec_token_def)
  then obtain len bk where "match_header inp n ctrl ip = Inr (Some (len, bk, ip'))"
    unfolding dec_match_def Let_def
    by (simp split: sum.splits option.splits prod.splits if_splits)
  then show ?thesis
    using match_header_ip by fastforce
next
  case False
  with assms show ?thesis
    unfolding dec_token_def dec_literal_def Let_def
    by (simp split: if_splits sum.splits)
qed

function dec_loop ::
  "byte list \<Rightarrow> nat \<Rightarrow> int \<Rightarrow> nat \<Rightarrow> nat \<Rightarrow> nat \<Rightarrow> byte list \<Rightarrow> fault + (int \<times> byte list)" where
  "dec_loop inp n max_out ctrl ip op out =
     (case dec_token inp n max_out ctrl ip op out of
        Inl f \<Rightarrow> Inl f
      | Inr (Stop out') \<Rightarrow> Inr (0, out')
      | Inr (Cont ip' op' out') \<Rightarrow>
          if ip' > ip_bound n then Inr (int op', out')
          else
            (case read_in inp n ip' of
               Inl f \<Rightarrow> Inl f
             | Inr c \<Rightarrow> dec_loop inp n max_out (unat c) (ip' + 1) op' out'))"
  by pat_completeness auto
termination
proof (relation "measure (\<lambda>(inp, n, max_out, ctrl, ip, op, out). n - ip)")
  show "wf (measure (\<lambda>(inp, n, max_out, ctrl, ip, op, out). n - ip))"
    by simp
next
  fix inp :: "byte list" and n :: nat and max_out :: int and ctrl ip op :: nat
    and out :: "byte list" and x2 c and x221 x222 :: nat and x223 :: "byte list"
  assume tok: "dec_token inp n max_out ctrl ip op out = Inr x2"
    and x2: "x2 = Cont x221 x222 x223"
    and rd: "read_in inp n x221 = Inr c"
  from rd have "x221 < n"
    by (simp add: read_in_def split: if_splits)
  moreover from tok x2 have "ip \<le> x221"
    using dec_token_ip by simp
  ultimately show "((inp, n, max_out, unat c, x221 + 1, x222, x223),
                    (inp, n, max_out, ctrl, ip, op, out))
       \<in> measure (\<lambda>(inp, n, max_out, ctrl, ip, op, out). n - ip)"
    by simp
qed

declare dec_loop.simps [simp del]

definition lz77_decompress ::
  "byte list \<Rightarrow> int \<Rightarrow> byte list \<Rightarrow> int \<Rightarrow> fault + (int \<times> byte list)" where
  "lz77_decompress inp len out max_out =
     (if len \<le> 0 then Inr (0, out)
      else
        case read_in inp (nat len) 0 of
          Inl f \<Rightarrow> Inl f
        | Inr c \<Rightarrow> dec_loop inp (nat len) max_out (unat (c AND 31)) 1 0 out)"

section \<open>The token stream as the specification reads it\<close>

text \<open>
  The wire format of a token, for a control byte of value \<open>ctrl\<close> and the input
  position \<open>ip\<close> just after it: a value below 32 is a literal run of \<open>ctrl + 1\<close> raw
  bytes; any other value is a match whose class is \<open>ctrl div 32\<close>, with one extension
  byte for class 7, and whose distance is \<open>(ctrl mod 32) * 256\<close> plus the last header
  byte plus 1. \<open>wire_in\<close> is the number of input bytes of the token after its control
  byte, \<open>wire_len\<close> the number of output bytes it stands for, \<open>wire_dist\<close> its distance.
  \<open>violates\<close> says that the token cannot be processed within the bounds: it needs an
  input byte at or past the declared length \<open>n\<close>, an output byte at or past \<open>max_out\<close>,
  or a source byte before the output origin.
\<close>

definition wire_in :: "nat \<Rightarrow> nat" where
  "wire_in ctrl = (if ctrl < 32 then ctrl + 1 else if ctrl div 32 = 7 then 2 else 1)"

definition wire_len :: "byte list \<Rightarrow> nat \<Rightarrow> nat \<Rightarrow> nat" where
  "wire_len inp ctrl ip =
     (if ctrl < 32 then ctrl + 1
      else if ctrl div 32 = 7 then unat (inp ! ip) + 9
      else ctrl div 32 + 2)"

definition wire_dist :: "byte list \<Rightarrow> nat \<Rightarrow> nat \<Rightarrow> nat" where
  "wire_dist inp ctrl ip = (ctrl mod 32) * 256 + unat (inp ! (ip + wire_in ctrl - 1)) + 1"

definition violates :: "byte list \<Rightarrow> nat \<Rightarrow> int \<Rightarrow> nat \<Rightarrow> nat \<Rightarrow> nat \<Rightarrow> bool" where
  "violates inp n max_out ctrl ip op \<longleftrightarrow>
     ip + wire_in ctrl > n \<or> int (op + wire_len inp ctrl ip) > max_out \<or>
     (ctrl \<ge> 32 \<and> wire_dist inp ctrl ip > op)"

text \<open>
  The token boundaries of a stream: \<open>reaches inp n max_out ctrl ip op\<close> holds when,
  reading the stream token by token, a token with control value \<open>ctrl\<close> starts with
  the input position \<open>ip\<close> just after its control byte and the output position \<open>op\<close>.
  Only the first control byte is reduced modulo 32; every later one is taken as it is.
  Reading goes on after a token while at least two input bytes remain.
\<close>

inductive reaches :: "byte list \<Rightarrow> nat \<Rightarrow> int \<Rightarrow> nat \<Rightarrow> nat \<Rightarrow> nat \<Rightarrow> bool"
  for inp :: "byte list" and n :: nat and max_out :: int where
  reaches_first: "reaches inp n max_out (unat (inp ! 0) mod 32) 1 0"
| reaches_next:
    "reaches inp n max_out ctrl ip op \<Longrightarrow> \<not> violates inp n max_out ctrl ip op \<Longrightarrow>
     ip + wire_in ctrl + 2 \<le> n \<Longrightarrow>
     reaches inp n max_out (unat (inp ! (ip + wire_in ctrl))) (ip + wire_in ctrl + 1)
       (op + wire_len inp ctrl ip)"

section \<open>Well-formed output of the compressor\<close>

text \<open>
  \<open>valid_match inp n pos len d\<close>: the call \<open>match(len, d)\<close> made with the cursor at
  \<open>pos\<close> stands for \<open>len + 2\<close> input bytes that repeat the input \<open>d\<close> positions back.
  \<open>good inp n a es a'\<close>: the calls \<open>es\<close>, made from anchor \<open>a\<close>, cover the input from
  \<open>a\<close> to \<open>a'\<close> in groups of pending literals, lazy literals and one valid match.
\<close>

definition valid_match :: "byte list \<Rightarrow> nat \<Rightarrow> nat \<Rightarrow> nat \<Rightarrow> nat \<Rightarrow> bool" where
  "valid_match inp n pos len d \<longleftrightarrow>
     1 \<le> len \<and> 1 \<le> d \<and> d < MAX_DISTANCE \<and> d \<le> pos \<and> pos + len + 2 \<le> n \<and>
     (\<forall>i < len + 2. inp ! (pos + i) = inp ! (pos + i - d))"

inductive good :: "byte list \<Rightarrow> nat \<Rightarrow> nat \<Rightarrow> emit list \<Rightarrow> nat \<Rightarrow> bool"
  for inp :: "byte list" and n :: nat where
  good_Nil: "a \<le> n \<Longrightarrow> good inp n a [] a"
| good_group:
    "valid_match inp n (a + k + j) len d \<Longrightarrow> j \<le> 2 \<Longrightarrow> (0 < j \<longrightarrow> 3 \<le> len) \<Longrightarrow>
     good inp n (a + k + j + len + 2) es a' \<Longrightarrow>
     good inp n a
       ((if 0 < k then [Literals k a] else []) @ (if 0 < j then [Literals j (a + k)] else [])
        @ Match len d # es) a'"

section \<open>Notions used for the round trip\<close>

text \<open>
  \<open>dec_from\<close> is the part of the loop of \<open>lz77_decompress\<close> between two tokens, as in
  \<open>dec_loop\<close>: the test \<open>ip > ip_bound\<close>, which ends the call with the output
  position, then the read of the next control byte. \<open>holds_at s p t\<close>: the bytes \<open>t\<close>
  stand in \<open>s\<close> from position \<open>p\<close>.
\<close>

definition dec_from ::
  "byte list \<Rightarrow> nat \<Rightarrow> int \<Rightarrow> nat \<Rightarrow> nat \<Rightarrow> byte list \<Rightarrow> fault + (int \<times> byte list)" where
  "dec_from inp n max_out ip op buf =
     (if ip > ip_bound n then Inr (int op, buf)
      else
        case read_in inp n ip of
          Inl f \<Rightarrow> Inl f
        | Inr c \<Rightarrow> dec_loop inp n max_out (unat c) (ip + 1) op buf)"

definition holds_at :: "byte list \<Rightarrow> nat \<Rightarrow> byte list \<Rightarrow> bool" where
  "holds_at s p t \<longleftrightarrow> take (length t) (drop p s) = t"

text \<open>A sample input: \<open>01 02 03\<close> repeated 9 times.\<close>

definition abc27 :: "byte list" where
  "abc27 = [1, 2, 3, 1, 2, 3, 1, 2, 3, 1, 2, 3, 1, 2, 3, 1, 2, 3, 1, 2, 3, 1, 2, 3, 1, 2, 3]"

section \<open>The match encoder against the decoder's token header\<close>

lemma or_shift5: 
  fixes x y :: nat
  assumes "y < 32"
  shows "x * 32 OR y = x * 32 + y"
proof -
  have y: "take_bit 5 y = y"
    using assms by (simp add: take_bit_nat_eq_self_iff)
  have "push_bit 5 x AND take_bit 5 y = 0"
    by (rule bit_eqI) (auto simp: bit_simps)
  then have "push_bit 5 x + take_bit 5 y = push_bit 5 x OR take_bit 5 y"
    by (rule disjunctive_add_eq_or)
  then show ?thesis
    by (simp add: y push_bit_eq_mult)
qed

lemma unat_byte: "x < 256 \<Longrightarrow> unat (of_nat x :: byte) = x"
  by (simp add: unat_of_nat)

lemma match_chunks_single:
  assumes "len \<le> 262"
  shows "match_chunks len d =
     [of_nat ((if len < 7 then len else 7) * 32 OR d div 256)]
        @ (if len \<ge> 7 then [of_nat (len - 7)] else [])
        @ [of_nat (d mod 256)]"
  using assms by (subst match_chunks.simps) simp

lemma match_chunks_long:
  assumes "262 < len"
  shows "match_chunks len d =
     [of_nat (7 * 32 + d div 256), 253, of_nat (d mod 256)] @ match_chunks (len - 262) d"
  using assms by (subst match_chunks.simps) simp

lemma match_chunks_260:
  assumes "d < 8192"
  shows "match_chunks 260 d = [of_nat (7 * 32 + d div 256), 253, of_nat (d mod 256)]"
proof -
  have "d div 256 < 32" using assms by simp
  then have "7 * 32 OR d div 256 = 7 * 32 + d div 256"
    by (rule or_shift5)
  then show ?thesis
    by (simp add: match_chunks_single)
qed

lemma match_chunks_split:
  assumes "d < 8192" "1 \<le> r"
  shows "match_chunks (262 * k + r) d = concat (replicate k (match_chunks 260 d)) @ match_chunks r d"
proof (induction k)
  case 0
  show ?case by simp
next
  case (Suc k)
  have "262 < 262 * Suc k + r"
    using assms by simp
  then have "match_chunks (262 * Suc k + r) d =
      [of_nat (7 * 32 + d div 256), 253, of_nat (d mod 256)] @ match_chunks (262 * k + r) d"
    by (simp add: match_chunks_long)
  then show ?case
    using Suc.IH assms by (simp add: match_chunks_260)
qed

lemma header_single:
  assumes "1 \<le> len" "len \<le> 262" "d < 8192" "bs = match_chunks len d"
  shows "match_header bs (length bs) (unat (hd bs)) 1 = Inr (Some (len + 2, d + 1, length bs))"
proof -
  have d32: "d div 256 < 32" using assms by simp
  let ?c = "if len < 7 then len else 7"
  have c: "?c * 32 OR d div 256 = ?c * 32 + d div 256"
    using d32 by (rule or_shift5)
  have clt: "?c * 32 + d div 256 < 256"
    using d32 by (auto split: if_splits)
  have hd: "unat (hd bs) = ?c * 32 + d div 256"
    using assms clt c by (simp add: match_chunks_single unat_byte del: of_nat_add of_nat_mult)
  have div: "(?c * 32 + d div 256) div 32 = ?c" and md: "(?c * 32 + d div 256) mod 32 = d div 256"
    using d32 by auto
  show ?thesis
  proof (cases "len < 7")
    case True
    then have bs: "bs = [of_nat (len * 32 + d div 256), of_nat (d mod 256)]"
      using assms c by (simp add: match_chunks_single)
    show ?thesis
      using True assms(1) hd div md
      by (simp add: match_header_def bs read_in_def Let_def unat_byte ip_bound_def)
  next
    case False
    define e where "e = len - 7"
    have e: "e < 256" "len = e + 7"
      using assms False by (simp_all add: e_def)
    have bs: "bs = [of_nat (7 * 32 + d div 256), of_nat e, of_nat (d mod 256)]"
      using assms c False by (simp add: match_chunks_single e_def)
    show ?thesis
      using False e hd div md
      by (simp add: match_header_def bs read_in_def Let_def unat_byte ip_bound_def)
  qed
qed


lemma match_in_range:
  assumes "1 \<le> distance" "distance \<le> 8192"
  shows "match len distance = match_chunks len (distance - 1)" "distance - 1 < 8192"
proof -
  have "(int distance - 1) mod 2 ^ 32 = int (distance - 1)"
    using assms by (simp add: of_nat_diff)
  then show "match len distance = match_chunks len (distance - 1)"
    by (simp add: match_def)
  show "distance - 1 < 8192" using assms by simp
qed

text \<open>
  C4, as stated, fails: a match of 265 bytes (\<open>len = 263\<close> in the encoder's
  \<open>length - 2\<close> units) is split, and its first token, read by the decoder's
  \<open>match_header\<close>, has length 262, not the single-token maximum 264.
\<close>

theorem match_chunk_decodes_262:
  "match 263 1 = [224, 253, 0, 32, 0] \<and>
   match_header (match 263 1) 5 (unat (hd (match 263 1))) 1 = Inr (Some (262, 1, 3)) \<and>
   match_header (match 263 1) 5 (unat (hd (match 263 1))) 1 \<noteq> Inr (Some (264, 1, 3))"
proof -
  have m: "match 263 1 = [224, 253, 0, 32, 0]"
    by (simp add: match_def match_chunks.simps)
  show ?thesis
    unfolding m by (simp add: match_header_def read_in_def ip_bound_def Let_def)
qed

text \<open>
  C4, amended: a match longer than 264 bytes (\<open>len > 262\<close>) at a distance in
  \<open>1..8192\<close> is emitted as \<open>k \<ge> 1\<close> copies of one extended token, which the decoder
  reads as length 262 at that distance, followed by one final token that the decoder
  reads as length \<open>r + 2\<close> at the same distance, with \<open>3 \<le> r + 2 \<le> 264\<close>; the
  lengths add up to the match (\<open>len = 262 * k + r\<close>, each token covering 2 more than
  its share in the encoder's units is accounted for by the final token alone).
\<close>

theorem match_splits_long_matches:
  assumes "262 < len" "1 \<le> distance" "distance \<le> 8192"
  shows "\<exists>k r. 1 \<le> k \<and> 1 \<le> r \<and> r \<le> 262 \<and> len = 262 * k + r \<and>
           match len distance = concat (replicate k (match 260 distance)) @ match r distance \<and>
           match_header (match 260 distance) 3 (unat (hd (match 260 distance))) 1
             = Inr (Some (262, distance, 3)) \<and>
           match_header (match r distance) (length (match r distance))
               (unat (hd (match r distance))) 1
             = Inr (Some (r + 2, distance, length (match r distance))) \<and>
           3 \<le> r + 2 \<and> r + 2 \<le> 264"
proof -
  define k where "k = (len - 1) div 262"
  define r where "r = (len - 1) mod 262 + 1"
  note m = match_in_range [OF assms(2,3)]
  have kr: "1 \<le> k" "1 \<le> r" "r \<le> 262" "len = 262 * k + r"
    using assms(1) by (simp_all add: k_def r_def div_greater_zero_iff Suc_le_eq)
  have split: "match len distance = concat (replicate k (match 260 distance)) @ match r distance"
    using match_chunks_split [OF m(2) kr(2), of k] kr(4) by (simp add: m(1))
  have len260: "length (match 260 distance) = 3"
    using m(2) by (simp add: m(1) match_chunks_260)
  have h260: "match_header (match 260 distance) 3 (unat (hd (match 260 distance))) 1
             = Inr (Some (262, distance, 3))"
    using header_single [of 260 "distance - 1" "match 260 distance"] m(2) assms(2) len260
    by (simp add: m(1))
  have hr: "match_header (match r distance) (length (match r distance))
               (unat (hd (match r distance))) 1
             = Inr (Some (r + 2, distance, length (match r distance)))"
    using header_single [of r "distance - 1" "match r distance"] m(2) assms(2) kr
    by (simp add: m(1))
  show ?thesis
    using kr split h260 hr by (intro exI [of _ k] exI [of _ r]) simp
qed

text \<open>The amended C4 at \<open>len = 263\<close>, \<open>distance = 1\<close>.\<close>

theorem match_splits_long_matches_witness:
  "\<exists>k r. 1 \<le> k \<and> 1 \<le> r \<and> r \<le> 262 \<and> (263::nat) = 262 * k + r \<and>
           match 263 1 = concat (replicate k (match 260 1)) @ match r 1 \<and>
           match_header (match 260 1) 3 (unat (hd (match 260 1))) 1
             = Inr (Some (262, 1, 3)) \<and>
           match_header (match r 1) (length (match r 1)) (unat (hd (match r 1))) 1
             = Inr (Some (r + 2, 1, length (match r 1))) \<and>
           3 \<le> r + 2 \<and> r + 2 \<le> 264"
  using match_splits_long_matches [of 263 1] by simp

section \<open>Argument checks and the workspace\<close>

text \<open>
  C8: for a non-positive length both entry points return 0 and leave the output buffer
  as it was; \<open>lz77_compress\<close> also leaves the workspace as it was.
\<close>

theorem nonpositive_length_rejected:
  assumes "len \<le> 0"
  shows "lz77_compress inp len out workmem = Inr (0, out, workmem) \<and>
         lz77_decompress inp len out max_out = Inr (0, out)"
  using assms by (simp add: lz77_compress_def lz77_decompress_def)

text \<open>C8 at length 0 and at length -2.\<close>

theorem nonpositive_length_rejected_witness:
  "lz77_compress [] 0 [1, 2, 3] (\<lambda>_. 7) = Inr (0, [1, 2, 3], (\<lambda>_. 7)) \<and>
   lz77_decompress [5, 6] (- 2) [1, 2, 3] 3 = Inr (0, [1, 2, 3]) \<and>
   lz77_decompress [] 0 [1, 2, 3] 3 = Inr (0, [1, 2, 3])"
  using nonpositive_length_rejected [of 0 "[]" "[1, 2, 3]" "\<lambda>_. 7" 3]
    nonpositive_length_rejected [of "- 2" "[5, 6]" "[1, 2, 3]" "\<lambda>_. 7" 3]
  by simp

text \<open>
  C9: the return value and the output buffer of \<open>lz77_compress\<close> (or its fault)
  do not depend on the initial contents of the workspace.
\<close>

theorem workspace_noninterference:
  "map_sum id (\<lambda>(r, out', wm). (r, out')) (lz77_compress inp len out wm1) =
   map_sum id (\<lambda>(r, out', wm). (r, out')) (lz77_compress inp len out wm2)"
  by (simp add: lz77_compress_def store_out_def split: prod.splits)

section \<open>Decoder safety and capacity\<close>

lemma copy_chunks_ok:
  assumes "0 \<le> ref" "ref + int distance = int op" "int (op + remain) \<le> max_out" "1 \<le> distance"
  shows "\<exists>out'. copy_chunks out max_out remain distance op ref = Inr (op + remain, out')"
  using assms
proof (induction out max_out remain distance op ref rule: copy_chunks.induct)
  case (1 out max_out remain distance op ref)
  show ?case
  proof (cases "remain = 0")
    case True
    then show ?thesis
      by (subst copy_chunks.simps) simp
  next
    case False
    define chunk where "chunk = (if remain < distance then remain else distance)"
    have ch: "chunk \<le> remain" "chunk \<le> distance" "1 \<le> chunk"
      using False "1.prems" by (auto simp: chunk_def)
    have cr: "copy_ref out max_out op ref chunk = Inr (memcpy out op out (nat ref) chunk)"
      using ch "1.prems" by (simp add: copy_ref_def)
    have nz: "\<not> (remain = 0 \<or> distance = 0)"
      using False "1.prems" by simp
    have "\<exists>out'. copy_chunks (memcpy out op out (nat ref) chunk) max_out (remain - chunk)
        distance (op + chunk) (ref + int chunk) = Inr (op + chunk + (remain - chunk), out')"
      using "1.IH" [OF nz chunk_def cr] "1.prems" ch by simp
    then show ?thesis
      using ch cr nz by (subst copy_chunks.simps) (simp add: chunk_def [symmetric] Let_def)
  qed
qed

lemma copy_chunks_cap:
  assumes "int (op + remain) \<le> N" "int (op + remain) \<le> M"
  shows "copy_chunks out N remain distance op ref = copy_chunks out M remain distance op ref"
  using assms
proof (induction out N remain distance op ref rule: copy_chunks.induct)
  case (1 out N remain distance op ref)
  show ?case
  proof (cases "remain = 0 \<or> distance = 0")
    case True
    then show ?thesis
      by (subst copy_chunks.simps, subst (2) copy_chunks.simps) simp
  next
    case False
    define chunk where "chunk = (if remain < distance then remain else distance)"
    have ch: "chunk \<le> remain"
      by (auto simp: chunk_def)
    have cr: "copy_ref out N op ref chunk = copy_ref out M op ref chunk"
      using ch "1.prems" by (simp add: copy_ref_def)
    show ?thesis
    proof (cases "copy_ref out N op ref chunk")
      case (Inl f)
      then show ?thesis
        using cr False
        by (subst copy_chunks.simps, subst (2) copy_chunks.simps)
           (simp add: chunk_def [symmetric] Let_def)
    next
      case (Inr out1)
      have "copy_chunks out1 N (remain - chunk) distance (op + chunk) (ref + int chunk) =
            copy_chunks out1 M (remain - chunk) distance (op + chunk) (ref + int chunk)"
        using "1.IH" [OF False chunk_def Inr] "1.prems" ch by simp
      moreover have "copy_ref out M op ref chunk = Inr out1"
        using cr Inr by simp
      ultimately show ?thesis
        using Inr False
        by (subst copy_chunks.simps, subst (2) copy_chunks.simps)
           (simp add: chunk_def [symmetric] Let_def)
    qed
  qed
qed

lemma match_header_ok:
  assumes "1 \<le> ip" "ip < n"
  shows "\<exists>h. match_header inp n ctrl ip = Inr h"
proof -
  have "ip \<le> ip_bound n \<Longrightarrow> ip + 1 < n"
    using assms by (simp add: ip_bound_def split: if_splits)
  then show ?thesis
    using assms unfolding match_header_def Let_def read_in_def
    by (auto split: if_splits)
qed

lemma match_header_back:
  "match_header inp n ctrl ip = Inr (Some (len, bk, ip')) \<Longrightarrow> 1 \<le> bk \<and> 3 \<le> len"
  unfolding match_header_def Let_def
  by (auto split: if_splits sum.splits)

lemma dec_match_Some:
  assumes "match_header inp n ctrl ip = Inr (Some (len, bk, ip'))"
  shows "dec_match inp n max_out ctrl ip op out =
     (if int op + int len > max_out \<or> int op < int bk then Inr (Stop out)
      else case copy_chunks out max_out len bk op (int op - int bk) of
             Inl f \<Rightarrow> Inl f
           | Inr (op', out') \<Rightarrow> Inr (Cont ip' op' out'))"
  using assms by (simp add: dec_match_def Let_def)

lemma dec_match_ok:
  assumes "1 \<le> ip" "ip < n"
  shows "\<exists>t. dec_match inp n max_out ctrl ip op out = Inr t"
proof -
  obtain h where h: "match_header inp n ctrl ip = Inr h"
    using match_header_ok [OF assms] by blast
  show ?thesis
  proof (cases h)
    case None
    then show ?thesis using h by (simp add: dec_match_def)
  next
    case (Some t)
    obtain len bk ip' where t: "t = (len, bk, ip')" by (cases t) auto
    have hh: "match_header inp n ctrl ip = Inr (Some (len, bk, ip'))"
      using h Some t by simp
    have bk: "1 \<le> bk" using match_header_back [OF hh] by simp
    show ?thesis
    proof (cases "int op + int len > max_out \<or> int op < int bk")
      case True
      then show ?thesis by (simp add: dec_match_Some [OF hh])
    next
      case False
      then obtain out' where
        "copy_chunks out max_out len bk op (int op - int bk) = Inr (op + len, out')"
        using copy_chunks_ok [of "int op - int bk" bk op len max_out out] bk by auto
      then show ?thesis using False by (simp add: dec_match_Some [OF hh])
    qed
  qed
qed

lemma dec_literal_ok: "\<exists>t. dec_literal inp n max_out ctrl ip op out = Inr t"
  by (simp add: dec_literal_def Let_def copy_in_def)

lemma dec_token_ok:
  assumes "1 \<le> ip" "ctrl < 32 \<or> ip < n"
  shows "\<exists>t. dec_token inp n max_out ctrl ip op out = Inr t"
  using assms dec_match_ok [of ip n] dec_literal_ok
  by (auto simp: dec_token_def)

lemma dec_loop_ok:
  assumes "1 \<le> ip" "ctrl < 32 \<or> ip < n"
  shows "\<exists>r out'. dec_loop inp n max_out ctrl ip op out = Inr (r, out')"
  using assms
proof (induction inp n max_out ctrl ip op out rule: dec_loop.induct)
  case (1 inp n max_out ctrl ip op out)
  obtain t where t: "dec_token inp n max_out ctrl ip op out = Inr t"
    using dec_token_ok [OF "1.prems"] by blast
  show ?case
  proof (cases t)
    case (Stop out')
    then show ?thesis using t by (subst dec_loop.simps) simp
  next
    case (Cont ip' op' out')
    have ge: "ip \<le> ip'"
      using dec_token_ip t Cont by simp
    show ?thesis
    proof (cases "ip' > ip_bound n")
      case True
      then show ?thesis using t Cont by (subst dec_loop.simps) simp
    next
      case False
      then have lt: "ip' + 1 < n"
        using ge "1.prems"(1) by (simp add: ip_bound_def split: if_splits)
      then have rd: "read_in inp n ip' = Inr (inp ! ip')"
        by (simp add: read_in_def)
      have "\<exists>r out''. dec_loop inp n max_out (unat (inp ! ip')) (ip' + 1) op' out' = Inr (r, out'')"
        using "1.IH" [OF t Cont False rd] lt by simp
      then show ?thesis
        using t Cont False rd by (subst dec_loop.simps) simp
    qed
  qed
qed

lemma copy_chunks_zero_distance_free:
  assumes "copy_chunks out max_out remain distance op ref = Inr (op', out')" "1 \<le> distance"
    "0 \<le> ref" "ref + int distance = int op" "int (op + remain) \<le> max_out"
  shows "op' = op + remain"
  using copy_chunks_ok [OF assms(3,4,5,2), of out] assms(1) by auto

lemma dec_token_cap:
  assumes "dec_token inp n N ctrl ip op out = Inr (Cont ip' op' out1)"
  shows "op \<le> op' \<and> int op' \<le> N \<and>
         dec_token inp n M ctrl ip op out =
           (if int op' \<le> M then Inr (Cont ip' op' out1) else Inr (Stop out))"
proof (cases "ctrl \<ge> 32")
  case False
  then have "dec_literal inp n N ctrl ip op out = Inr (Cont ip' op' out1)"
    using assms by (simp add: dec_token_def)
  then have "op' = op + (ctrl + 1) \<and> int op' \<le> N \<and> ip' = ip + (ctrl + 1) \<and> ip' \<le> n \<and>
      out1 = memcpy out op inp ip (ctrl + 1)"
    by (auto simp: dec_literal_def Let_def copy_in_def split: if_splits)
  then show ?thesis
    using False by (auto simp: dec_token_def dec_literal_def Let_def copy_in_def)
next
  case True
  then have dm: "dec_match inp n N ctrl ip op out = Inr (Cont ip' op' out1)"
    using assms by (simp add: dec_token_def)
  then obtain len bk where hh: "match_header inp n ctrl ip = Inr (Some (len, bk, ip'))"
    unfolding dec_match_def Let_def
    by (simp split: sum.splits option.splits prod.splits if_splits)
  have bk: "1 \<le> bk" using match_header_back [OF hh] by simp
  from dm have chk: "\<not> (int op + int len > N \<or> int op < int bk)"
    and cc: "copy_chunks out N len bk op (int op - int bk) = Inr (op', out1)"
    by (auto simp: dec_match_Some [OF hh] split: if_splits sum.splits)
  have op': "op' = op + len"
    using copy_chunks_zero_distance_free [OF cc bk] chk by simp
  show ?thesis
  proof (cases "int op' \<le> M")
    case le: True
    have "copy_chunks out M len bk op (int op - int bk) = Inr (op', out1)"
      using copy_chunks_cap [of op len N M out bk "int op - int bk"] cc chk le op' by simp
    then show ?thesis
      using True le op' chk by (simp add: dec_token_def dec_match_Some [OF hh])
  next
    case gt: False
    then show ?thesis
      using True op' chk by (simp add: dec_token_def dec_match_Some [OF hh])
  qed
qed

lemma dec_token_Stop_cap:
  assumes "dec_token inp n N ctrl ip op out = Inr (Stop out1)"
  shows "out1 = out"
proof (cases "ctrl \<ge> 32")
  case False
  then show ?thesis
    using assms by (auto simp: dec_token_def dec_literal_def Let_def copy_in_def split: if_splits)
next
  case True
  then have dm: "dec_match inp n N ctrl ip op out = Inr (Stop out1)"
    using assms by (simp add: dec_token_def)
  then show ?thesis
    unfolding dec_match_def Let_def
    by (simp split: sum.splits option.splits prod.splits if_splits)
qed

lemma dec_loop_cases:
  "dec_loop inp n max_out ctrl ip op out =
     (case dec_token inp n max_out ctrl ip op out of
        Inl f \<Rightarrow> Inl f
      | Inr (Stop out') \<Rightarrow> Inr (0, out')
      | Inr (Cont ip' op' out') \<Rightarrow>
          if ip' > ip_bound n then Inr (int op', out')
          else
            (case read_in inp n ip' of
               Inl f \<Rightarrow> Inl f
             | Inr c \<Rightarrow> dec_loop inp n max_out (unat c) (ip' + 1) op' out'))"
  by (rule dec_loop.simps)

lemma dec_loop_result:
  assumes "dec_loop inp n N ctrl ip op out = Inr (r, out')"
  shows "r = 0 \<or> (int op \<le> r \<and> r \<le> N)"
  using assms
proof (induction inp n N ctrl ip op out rule: dec_loop.induct)
  case (1 inp n N ctrl ip op out)
  show ?case
  proof (cases "dec_token inp n N ctrl ip op out")
    case (Inl f)
    then show ?thesis using "1.prems" by (simp add: dec_loop_cases)
  next
    case (Inr t)
    show ?thesis
    proof (cases t)
      case (Stop out1)
      then show ?thesis using "1.prems" Inr by (simp add: dec_loop_cases)
    next
      case (Cont ip' op' out1)
      have b: "op \<le> op'" "int op' \<le> N"
        using dec_token_cap [of inp n N ctrl ip op out ip' op' out1] Inr Cont by simp_all
      show ?thesis
      proof (cases "ip' > ip_bound n")
        case True
        then show ?thesis using "1.prems" Inr Cont b by (simp add: dec_loop_cases)
      next
        case False
        show ?thesis
        proof (cases "read_in inp n ip'")
          case (Inl f)
          then show ?thesis using "1.prems" Inr Cont False by (simp add: dec_loop_cases)
        next
          case rd: (Inr c)
          have "dec_loop inp n N (unat c) (ip' + 1) op' out1 = Inr (r, out')"
            using "1.prems" Inr Cont False rd by (simp add: dec_loop_cases)
          then have "r = 0 \<or> (int op' \<le> r \<and> r \<le> N)"
            using "1.IH" [OF Inr Cont False rd] by simp
          then show ?thesis using b by auto
        qed
      qed
    qed
  qed
qed

lemma dec_loop_cap_ge:
  assumes "dec_loop inp n N ctrl ip op out = Inr (r, out')" "0 < r" "r \<le> M"
  shows "dec_loop inp n M ctrl ip op out = Inr (r, out')"
  using assms
proof (induction inp n N ctrl ip op out rule: dec_loop.induct)
  case (1 inp n N ctrl ip op out)
  show ?case
  proof (cases "dec_token inp n N ctrl ip op out")
    case (Inl f)
    then show ?thesis using "1.prems" by (simp add: dec_loop_cases)
  next
    case (Inr t)
    show ?thesis
    proof (cases t)
      case (Stop out1)
      then show ?thesis using "1.prems" Inr by (simp add: dec_loop_cases)
    next
      case (Cont ip' op' out1)
      note cap = dec_token_cap [of inp n N ctrl ip op out ip' op' out1 M]
      show ?thesis
      proof (cases "ip' > ip_bound n")
        case True
        then have "r = int op'" "out' = out1"
          using "1.prems" Inr Cont by (simp_all add: dec_loop_cases)
        then show ?thesis
          using cap Inr Cont True "1.prems" by (simp add: dec_loop_cases [of inp n M])
      next
        case False
        show ?thesis
        proof (cases "read_in inp n ip'")
          case (Inl f)
          then show ?thesis using "1.prems" Inr Cont False by (simp add: dec_loop_cases)
        next
          case rd: (Inr c)
          have rec: "dec_loop inp n N (unat c) (ip' + 1) op' out1 = Inr (r, out')"
            using "1.prems" Inr Cont False rd by (simp add: dec_loop_cases)
          then have "int op' \<le> r"
            using dec_loop_result [OF rec] "1.prems" by auto
          moreover have "dec_loop inp n M (unat c) (ip' + 1) op' out1 = Inr (r, out')"
            using "1.IH" [OF Inr Cont False rd rec] "1.prems" by simp
          ultimately show ?thesis
            using cap Inr Cont False rd "1.prems" by (simp add: dec_loop_cases [of inp n M])
        qed
      qed
    qed
  qed
qed

lemma dec_loop_cap_lt:
  assumes "dec_loop inp n N ctrl ip op out = Inr (r, out')" "0 < r" "M < r"
  shows "\<exists>out''. dec_loop inp n M ctrl ip op out = Inr (0, out'')"
  using assms
proof (induction inp n N ctrl ip op out rule: dec_loop.induct)
  case (1 inp n N ctrl ip op out)
  show ?case
  proof (cases "dec_token inp n N ctrl ip op out")
    case (Inl f)
    then show ?thesis using "1.prems" by (simp add: dec_loop_cases)
  next
    case (Inr t)
    show ?thesis
    proof (cases t)
      case (Stop out1)
      then show ?thesis using "1.prems" Inr by (simp add: dec_loop_cases)
    next
      case (Cont ip' op' out1)
      note cap = dec_token_cap [of inp n N ctrl ip op out ip' op' out1 M]
      show ?thesis
      proof (cases "int op' \<le> M")
        case gt: False
        then show ?thesis
          using cap Inr Cont by (simp add: dec_loop_cases [of inp n M])
      next
        case le: True
        show ?thesis
        proof (cases "ip' > ip_bound n")
          case True
          then have "r = int op'"
            using "1.prems" Inr Cont by (simp_all add: dec_loop_cases)
          then show ?thesis using le "1.prems" by simp
        next
          case False
          show ?thesis
          proof (cases "read_in inp n ip'")
            case (Inl f)
            then show ?thesis using "1.prems" Inr Cont False by (simp add: dec_loop_cases)
          next
            case rd: (Inr c)
            have rec: "dec_loop inp n N (unat c) (ip' + 1) op' out1 = Inr (r, out')"
              using "1.prems" Inr Cont False rd by (simp add: dec_loop_cases)
            have "\<exists>out''. dec_loop inp n M (unat c) (ip' + 1) op' out1 = Inr (0, out'')"
              using "1.IH" [OF Inr Cont False rd rec] "1.prems" by simp
            then show ?thesis
              using cap Inr Cont False rd le by (simp add: dec_loop_cases [of inp n M])
          qed
        qed
      qed
    qed
  qed
qed

lemma unat_and_31: "unat (c AND 31 :: byte) = unat c mod 32"
proof -
  have "c AND 31 = take_bit 5 c"
    by (simp add: take_bit_eq_mask mask_eq_exp_minus_1)
  then have "unat (c AND 31) = take_bit 5 (unat c)"
    by (simp add: unsigned_take_bit_eq)
  then show ?thesis
    by (simp add: take_bit_eq_mod)
qed

text \<open>
  C3: if decompression succeeds with result \<open>r > 0\<close> under capacity \<open>N\<close>, then under
  every capacity \<open>M \<ge> r\<close> it returns the same \<open>r\<close> and the same output buffer, and
  under every capacity \<open>M < r\<close> it returns 0.
\<close>

theorem monotonic_capacity:
  assumes "lz77_decompress c len out N = Inr (r, out')" "0 < r"
  shows "(\<forall>M\<ge>r. lz77_decompress c len out M = Inr (r, out')) \<and>
         (\<forall>M<r. \<exists>out''. lz77_decompress c len out M = Inr (0, out''))"
proof -
  have pos: "\<not> len \<le> 0"
    using assms by (auto simp: lz77_decompress_def split: if_splits)
  then have rd: "read_in c (nat len) 0 = Inr (c ! 0)"
    by (simp add: read_in_def)
  have dl: "dec_loop c (nat len) N (unat (c ! 0 AND 31)) 1 0 out = Inr (r, out')"
    using assms(1) pos rd by (simp add: lz77_decompress_def)
  have "lz77_decompress c len out M = Inr (r, out')" if "r \<le> M" for M
    using dec_loop_cap_ge [OF dl assms(2) that] pos rd by (simp add: lz77_decompress_def)
  moreover have "\<exists>out''. lz77_decompress c len out M = Inr (0, out'')" if "M < r" for M
    using dec_loop_cap_lt [OF dl assms(2) that] pos rd by (simp add: lz77_decompress_def)
  ultimately show ?thesis by blast
qed

lemma read_in_hd: "1 \<le> ip \<Longrightarrow> read_in (b # rest) n ip = read_in (b' # rest) n ip"
  by (cases ip) (simp_all add: read_in_def)

lemma copy_in_hd:
  "1 \<le> ip \<Longrightarrow> copy_in (b # rest) n ip out m op cnt = copy_in (b' # rest) n ip out m op cnt"
  by (cases ip) (simp_all add: copy_in_def memcpy_def)

lemma match_header_hd:
  assumes "1 \<le> ip"
  shows "match_header (b # rest) n ctrl ip = match_header (b' # rest) n ctrl ip"
proof -
  have a: "read_in (b # rest) n ip = read_in (b' # rest) n ip"
    using assms by (rule read_in_hd)
  have c: "read_in (b # rest) n (Suc ip) = read_in (b' # rest) n (Suc ip)"
    by (rule read_in_hd) simp
  show ?thesis
  proof (cases "ctrl div 32 - 1 = 6")
    case True
    then show ?thesis
      by (simp add: match_header_def Let_def a c split: sum.splits)
  next
    case False
    then show ?thesis
      by (simp add: match_header_def Let_def a)
  qed
qed

lemma dec_token_hd:
  assumes "1 \<le> ip"
  shows "dec_token (b # rest) n m ctrl ip op out = dec_token (b' # rest) n m ctrl ip op out"
proof -
  have a: "match_header (b # rest) n ctrl ip = match_header (b' # rest) n ctrl ip"
    using assms by (rule match_header_hd)
  have c: "copy_in (b # rest) n ip out m op cnt = copy_in (b' # rest) n ip out m op cnt" for cnt
    using assms by (rule copy_in_hd)
  show ?thesis
    unfolding dec_token_def dec_match_def dec_literal_def a c by (rule refl)
qed

lemma dec_loop_hd:
  assumes "1 \<le> ip"
  shows "dec_loop (b # rest) n m ctrl ip op out = dec_loop (b' # rest) n m ctrl ip op out"
  using assms
proof (induction "b # rest" n m ctrl ip op out rule: dec_loop.induct)
  case (1 n m ctrl ip op out)
  note tk = dec_token_hd [OF "1.prems", of b rest n m ctrl op out b']
  show ?case
  proof (cases "dec_token (b # rest) n m ctrl ip op out")
    case (Inl f)
    moreover have "dec_token (b' # rest) n m ctrl ip op out = Inl f"
      using tk Inl by simp
    ultimately show ?thesis
      by (simp add: dec_loop_cases [of _ n m ctrl ip])
  next
    case (Inr t)
    have Inr': "dec_token (b' # rest) n m ctrl ip op out = Inr t"
      using tk Inr by simp
    show ?thesis
    proof (cases t)
      case (Stop out1)
      then show ?thesis
        using Inr Inr' by (simp add: dec_loop_cases [of _ n m ctrl ip])
    next
      case (Cont ip' op' out1)
      have ge: "1 \<le> ip'"
        using dec_token_ip [of "b # rest" n m ctrl ip op out ip' op' out1] Inr Cont "1.prems"
        by simp
      note rd = read_in_hd [OF ge, of b rest n b']
      show ?thesis
      proof (cases "ip' > ip_bound n")
        case True
        then show ?thesis
          using Inr Inr' Cont by (simp add: dec_loop_cases [of _ n m ctrl ip])
      next
        case False
        show ?thesis
        proof (cases "read_in (b # rest) n ip'")
          case (Inl f)
          moreover have "read_in (b' # rest) n ip' = Inl f"
            using rd Inl by simp
          ultimately show ?thesis
            using Inr Inr' Cont False by (simp add: dec_loop_cases [of _ n m ctrl ip])
        next
          case rdc: (Inr c)
          have rdc': "read_in (b' # rest) n ip' = Inr c"
            using rd rdc by simp
          have "dec_loop (b # rest) n m (unat c) (ip' + 1) op' out1 =
                dec_loop (b' # rest) n m (unat c) (ip' + 1) op' out1"
            using "1.hyps" [OF Inr Cont False rdc] by simp
          then show ?thesis
            using Inr Inr' Cont False rdc rdc' by (simp add: dec_loop_cases [of _ n m ctrl ip])
        qed
      qed
    qed
  qed
qed

text \<open>
  C3 on the stream \<open>00 07 20 00\<close> (one literal, then a match of length 3 at distance 1),
  which decodes to 4 bytes: capacities 5 and 4 succeed, capacity 3 returns 0.
\<close>

theorem monotonic_capacity_witness:
  "lz77_decompress [0x00, 7, 0x20, 0x00] 4 [0, 0, 0, 0, 0] 5 = Inr (4, [7, 7, 7, 7, 0]) \<and>
   lz77_decompress [0x00, 7, 0x20, 0x00] 4 [0, 0, 0, 0, 0] 4 = Inr (4, [7, 7, 7, 7, 0]) \<and>
   (\<exists>out''. lz77_decompress [0x00, 7, 0x20, 0x00] 4 [0, 0, 0, 0, 0] 3 = Inr (0, out''))"
proof -
  have d: "lz77_decompress [0x00, 7, 0x20, 0x00] 4 [0, 0, 0, 0, 0] 5 = Inr (4, [7, 7, 7, 7, 0])"
    by code_simp
  show ?thesis
    using monotonic_capacity [OF d] d by simp
qed

section \<open>The decoder follows the wire format\<close>

lemma match_header_wire:
  assumes "32 \<le> ctrl" "1 \<le> ip"
  shows "ip + wire_in ctrl \<le> n \<Longrightarrow>
           match_header inp n ctrl ip =
             Inr (Some (wire_len inp ctrl ip, wire_dist inp ctrl ip, ip + wire_in ctrl))"
    and "ip + wire_in ctrl > n \<Longrightarrow> ip < n \<Longrightarrow> match_header inp n ctrl ip = Inr None"
proof -
  have c7: "ctrl div 32 - 1 = 6 \<longleftrightarrow> ctrl div 32 = 7"
    using assms(1) by auto
  show "match_header inp n ctrl ip =
             Inr (Some (wire_len inp ctrl ip, wire_dist inp ctrl ip, ip + wire_in ctrl))"
    if "ip + wire_in ctrl \<le> n"
  proof (cases "ctrl div 32 = 7")
    case True
    then have "ip + 2 \<le> n" using that assms(1) by (simp add: wire_in_def)
    then show ?thesis
      using True assms
      by (simp add: match_header_def Let_def read_in_def ip_bound_def wire_in_def wire_len_def
          wire_dist_def)
  next
    case False
    then have "ip + 1 \<le> n" using that assms(1) by (simp add: wire_in_def)
    moreover have "ctrl div 32 - 1 + 3 = ctrl div 32 + 2"
      using assms(1) by (simp add: Suc_leI div_greater_zero_iff)
    ultimately show ?thesis
      using False assms c7
      by (simp add: match_header_def Let_def read_in_def wire_in_def wire_len_def wire_dist_def)
  qed
  show "match_header inp n ctrl ip = Inr None" if "ip + wire_in ctrl > n" "ip < n"
  proof -
    have "ctrl div 32 = 7"
      using that assms(1) by (auto simp: wire_in_def split: if_splits)
    moreover have "ip > ip_bound n"
      using that assms by (auto simp: wire_in_def ip_bound_def split: if_splits)
    ultimately show ?thesis
      by (simp add: match_header_def Let_def)
  qed
qed

lemma dec_token_wire:
  assumes "1 \<le> ip" "ctrl < 32 \<or> ip < n"
  shows "violates inp n max_out ctrl ip op \<Longrightarrow>
           dec_token inp n max_out ctrl ip op buf = Inr (Stop buf)"
    and "\<not> violates inp n max_out ctrl ip op \<Longrightarrow>
           \<exists>buf'. dec_token inp n max_out ctrl ip op buf =
              Inr (Cont (ip + wire_in ctrl) (op + wire_len inp ctrl ip) buf')"
proof -
  show "dec_token inp n max_out ctrl ip op buf = Inr (Stop buf)"
    if v: "violates inp n max_out ctrl ip op"
  proof (cases "ctrl < 32")
    case True
    then show ?thesis
      using v by (auto simp: dec_token_def dec_literal_def Let_def violates_def wire_in_def
          wire_len_def)
  next
    case False
    then have c: "32 \<le> ctrl" and ipn: "ip < n" using assms(2) by simp_all
    show ?thesis
    proof (cases "ip + wire_in ctrl > n")
      case True
      then show ?thesis
        using match_header_wire(2) [OF c assms(1) True ipn, of inp] c
        by (simp add: dec_token_def dec_match_def)
    next
      case le: False
      then have h: "match_header inp n ctrl ip =
             Inr (Some (wire_len inp ctrl ip, wire_dist inp ctrl ip, ip + wire_in ctrl))"
        using match_header_wire(1) [OF c assms(1), of n inp] by simp
      have "int op + int (wire_len inp ctrl ip) > max_out \<or> int op < int (wire_dist inp ctrl ip)"
        using v le c by (auto simp: violates_def)
      then show ?thesis
        using c by (simp add: dec_token_def dec_match_Some [OF h])
    qed
  qed
  show "\<exists>buf'. dec_token inp n max_out ctrl ip op buf =
              Inr (Cont (ip + wire_in ctrl) (op + wire_len inp ctrl ip) buf')"
    if nv: "\<not> violates inp n max_out ctrl ip op"
  proof (cases "ctrl < 32")
    case True
    then show ?thesis
      using nv by (auto simp: dec_token_def dec_literal_def copy_in_def Let_def violates_def
          wire_in_def wire_len_def)
  next
    case False
    then have c: "32 \<le> ctrl" by simp
    have le: "ip + wire_in ctrl \<le> n"
      using nv by (simp add: violates_def)
    have h: "match_header inp n ctrl ip =
             Inr (Some (wire_len inp ctrl ip, wire_dist inp ctrl ip, ip + wire_in ctrl))"
      by (rule match_header_wire(1) [OF c assms(1) le])
    have chk: "\<not> (int op + int (wire_len inp ctrl ip) > max_out \<or>
        int op < int (wire_dist inp ctrl ip))"
      using nv c by (auto simp: violates_def)
    have d1: "1 \<le> wire_dist inp ctrl ip"
      by (simp add: wire_dist_def)
    obtain buf' where "copy_chunks buf max_out (wire_len inp ctrl ip) (wire_dist inp ctrl ip) op
        (int op - int (wire_dist inp ctrl ip)) = Inr (op + wire_len inp ctrl ip, buf')"
      using copy_chunks_ok [of "int op - int (wire_dist inp ctrl ip)" "wire_dist inp ctrl ip" op
          "wire_len inp ctrl ip" max_out buf] chk d1 by auto
    then show ?thesis
      using c chk by (simp add: dec_token_def dec_match_Some [OF h])
  qed
qed

lemma reaches_inv:
  "reaches inp n max_out ctrl ip op \<Longrightarrow> 1 \<le> ip \<and> (ctrl < 32 \<or> ip < n)"
  by (induction rule: reaches.induct) auto

lemma wire_len_pos: "1 \<le> wire_len inp ctrl ip"
  by (simp add: wire_len_def)

lemma wire_in_pos: "1 \<le> wire_in ctrl"
  by (simp add: wire_in_def)

lemma continue_iff:
  assumes "1 \<le> ip'"
  shows "ip' > ip_bound n \<longleftrightarrow> ip' + 2 > n"
  using assms by (auto simp: ip_bound_def)

text \<open>The loop, started in a reached state, is what the whole call computes.\<close>

lemma reaches_dec_loop:
  assumes "reaches inp n max_out ctrl ip op" "0 < n"
  shows "\<exists>buf. dec_loop inp n max_out (unat (inp ! 0 AND 31)) 1 0 out =
               dec_loop inp n max_out ctrl ip op buf"
  using assms
proof (induction rule: reaches.induct)
  case reaches_first
  show ?case by (auto simp: unat_and_31)
next
  case (reaches_next ctrl ip op)
  obtain buf where b: "dec_loop inp n max_out (unat (inp ! 0 AND 31)) 1 0 out =
               dec_loop inp n max_out ctrl ip op buf"
    using reaches_next.IH [OF reaches_next.prems] by blast
  note inv = reaches_inv [OF reaches_next.hyps(1)]
  obtain buf' where t: "dec_token inp n max_out ctrl ip op buf =
      Inr (Cont (ip + wire_in ctrl) (op + wire_len inp ctrl ip) buf')"
    using dec_token_wire(2) [of ip ctrl n inp max_out op buf] inv reaches_next.hyps(2) by blast
  have nb: "\<not> ip + wire_in ctrl > ip_bound n"
    using reaches_next.hyps(3) by (simp add: ip_bound_def)
  have rd: "read_in inp n (ip + wire_in ctrl) = Inr (inp ! (ip + wire_in ctrl))"
    using reaches_next.hyps(3) by (simp add: read_in_def)
  have "dec_loop inp n max_out ctrl ip op buf =
      dec_loop inp n max_out (unat (inp ! (ip + wire_in ctrl))) (ip + wire_in ctrl + 1)
        (op + wire_len inp ctrl ip) buf'"
    by (subst dec_loop_cases) (simp only: t rd nb sum.case token_result.case if_False)
  then show ?case using b by auto
qed

lemma dec_loop_zero:
  assumes "reaches inp n max_out ctrl ip op"
    "dec_loop inp n max_out ctrl ip op buf = Inr (0, out')"
  shows "\<exists>c i p. reaches inp n max_out c i p \<and> violates inp n max_out c i p"
  using assms
proof (induction inp n max_out ctrl ip op buf rule: dec_loop.induct)
  case (1 inp n max_out ctrl ip op buf)
  note inv = reaches_inv [OF "1.prems"(1)]
  show ?case
  proof (cases "violates inp n max_out ctrl ip op")
    case True
    then show ?thesis using "1.prems"(1) by blast
  next
    case nv: False
    obtain buf' where t: "dec_token inp n max_out ctrl ip op buf =
      Inr (Cont (ip + wire_in ctrl) (op + wire_len inp ctrl ip) buf')"
      using dec_token_wire(2) [of ip ctrl n inp max_out op buf] inv nv by blast
    show ?thesis
    proof (cases "ip + wire_in ctrl > ip_bound n")
      case True
      then have "dec_loop inp n max_out ctrl ip op buf = Inr (int (op + wire_len inp ctrl ip), buf')"
        by (subst dec_loop_cases) (simp add: t)
      then show ?thesis
        using "1.prems"(2) wire_len_pos [of inp ctrl ip] by simp
    next
      case nb: False
      then have le: "ip + wire_in ctrl + 2 \<le> n"
        using inv wire_in_pos [of ctrl] by (auto simp: ip_bound_def split: if_splits)
      then have rd: "read_in inp n (ip + wire_in ctrl) = Inr (inp ! (ip + wire_in ctrl))"
        by (simp add: read_in_def)
      have r': "reaches inp n max_out (unat (inp ! (ip + wire_in ctrl))) (ip + wire_in ctrl + 1)
          (op + wire_len inp ctrl ip)"
        by (rule reaches_next [OF "1.prems"(1) nv le])
      have "dec_loop inp n max_out ctrl ip op buf =
        dec_loop inp n max_out (unat (inp ! (ip + wire_in ctrl))) (ip + wire_in ctrl + 1)
          (op + wire_len inp ctrl ip) buf'"
        by (subst dec_loop_cases) (simp only: t rd nb sum.case token_result.case if_False)
      then have "dec_loop inp n max_out (unat (inp ! (ip + wire_in ctrl))) (ip + wire_in ctrl + 1)
          (op + wire_len inp ctrl ip) buf' = Inr (0, out')"
        using "1.prems"(2) by simp
      then show ?thesis
        by (rule "1.IH" [OF t refl nb rd r'])
    qed
  qed
qed

lemma decompress_dec_loop:
  assumes "0 < len"
  shows "lz77_decompress inp len out max_out =
         dec_loop inp (nat len) max_out (unat (inp ! 0 AND 31)) 1 0 out"
  using assms by (simp add: lz77_decompress_def read_in_def)

lemma reaches_violates_zero:
  assumes "0 < len" "reaches inp (nat len) max_out ctrl ip op"
    "violates inp (nat len) max_out ctrl ip op"
  shows "\<exists>out'. lz77_decompress inp len out max_out = Inr (0, out')"
proof -
  have n: "0 < nat len" using assms(1) by simp
  obtain buf where b: "dec_loop inp (nat len) max_out (unat (inp ! 0 AND 31)) 1 0 out =
               dec_loop inp (nat len) max_out ctrl ip op buf"
    using reaches_dec_loop [OF assms(2) n, of out] by blast
  note inv = reaches_inv [OF assms(2)]
  have t: "dec_token inp (nat len) max_out ctrl ip op buf = Inr (Stop buf)"
    using dec_token_wire(1) [of ip ctrl "nat len" inp max_out op buf] inv assms(3) by blast
  have "dec_loop inp (nat len) max_out ctrl ip op buf = Inr (0, buf)"
    by (subst dec_loop_cases) (simp add: t)
  then show ?thesis
    using b decompress_dec_loop [OF assms(1), of inp out max_out] by simp
qed

lemma reaches_last_token:
  assumes "0 < len" "reaches inp (nat len) max_out ctrl ip op"
    "\<not> violates inp (nat len) max_out ctrl ip op" "ip + wire_in ctrl + 2 > nat len"
  shows "\<exists>out'. lz77_decompress inp len out max_out = Inr (int (op + wire_len inp ctrl ip), out')"
proof -
  have n: "0 < nat len" using assms(1) by simp
  obtain buf where b: "dec_loop inp (nat len) max_out (unat (inp ! 0 AND 31)) 1 0 out =
               dec_loop inp (nat len) max_out ctrl ip op buf"
    using reaches_dec_loop [OF assms(2) n, of out] by blast
  note inv = reaches_inv [OF assms(2)]
  obtain buf' where t: "dec_token inp (nat len) max_out ctrl ip op buf =
      Inr (Cont (ip + wire_in ctrl) (op + wire_len inp ctrl ip) buf')"
    using dec_token_wire(2) [of ip ctrl "nat len" inp max_out op buf] inv assms(3) by blast
  have "ip + wire_in ctrl > ip_bound (nat len)"
    using assms(4) inv by (auto simp: ip_bound_def)
  then have "dec_loop inp (nat len) max_out ctrl ip op buf =
      Inr (int (op + wire_len inp ctrl ip), buf')"
    by (subst dec_loop_cases) (simp add: t)
  then show ?thesis
    using b decompress_dec_loop [OF assms(1), of inp out max_out] by simp
qed

lemma zero_reaches_violates:
  assumes "0 < len" "lz77_decompress inp len out max_out = Inr (0, out')"
  shows "\<exists>ctrl ip op. reaches inp (nat len) max_out ctrl ip op \<and>
           violates inp (nat len) max_out ctrl ip op"
proof -
  have "dec_loop inp (nat len) max_out (unat (inp ! 0) mod 32) 1 0 out = Inr (0, out')"
    using assms decompress_dec_loop [OF assms(1), of inp out max_out] by (simp add: unat_and_31)
  then show ?thesis
    by (rule dec_loop_zero [OF reaches_first])
qed

lemma reaches_ctrl:
  "reaches inp n max_out ctrl ip op \<Longrightarrow>
     (ip = 1 \<and> ctrl = unat (inp ! 0) mod 32) \<or> (2 \<le> ip \<and> ctrl = unat (inp ! (ip - 1)))"
proof (induction rule: reaches.induct)
  case reaches_first
  show ?case by simp
next
  case (reaches_next ctrl ip op)
  have "1 \<le> ip" using reaches_inv [OF reaches_next.hyps(1)] by simp
  then show ?case
    using wire_in_pos [of ctrl] by simp
qed

text \<open>
  C2: for every input buffer, declared length, output buffer and capacity,
  \<open>lz77_decompress\<close> returns a value and never a \<open>fault\<close>: no read of the input at or
  past the declared length, no write at or past \<open>max_out\<close>, no read before the output
  origin; the value is 0 or at most \<open>max_out\<close>. For a positive length it returns 0
  exactly when the stream has a token that \<open>violates\<close> one of these bounds.
\<close>

theorem decoder_never_faults:
  "(\<exists>r out'. lz77_decompress inp len out max_out = Inr (r, out') \<and>
       0 \<le> r \<and> (r = 0 \<or> r \<le> max_out)) \<and>
   (0 < len \<longrightarrow>
     ((\<exists>ctrl ip op. reaches inp (nat len) max_out ctrl ip op \<and>
          violates inp (nat len) max_out ctrl ip op)
      \<longleftrightarrow> (\<exists>out'. lz77_decompress inp len out max_out = Inr (0, out'))))"
proof -
  have safe: "\<exists>r out'. lz77_decompress inp len out max_out = Inr (r, out') \<and>
      0 \<le> r \<and> (r = 0 \<or> r \<le> max_out)"
  proof (cases "len \<le> 0")
    case True
    then show ?thesis by (simp add: lz77_decompress_def)
  next
    case False
    then have rd: "read_in inp (nat len) 0 = Inr (inp ! 0)"
      by (simp add: read_in_def)
    have "unat (inp ! 0 AND 31) < 32"
      by (simp add: unat_and_31)
    then obtain r out' where
      dl: "dec_loop inp (nat len) max_out (unat (inp ! 0 AND 31)) 1 0 out = Inr (r, out')"
      using dec_loop_ok [of 1 "unat (inp ! 0 AND 31)" "nat len" inp max_out 0 out] by auto
    have "r = 0 \<or> (0 \<le> r \<and> r \<le> max_out)"
      using dec_loop_result [OF dl] by auto
    then show ?thesis
      using False rd dl by (auto simp: lz77_decompress_def)
  qed
  have "(\<exists>ctrl ip op. reaches inp (nat len) max_out ctrl ip op \<and>
          violates inp (nat len) max_out ctrl ip op)
      \<longleftrightarrow> (\<exists>out'. lz77_decompress inp len out max_out = Inr (0, out'))" if "0 < len"
    using reaches_violates_zero [OF that, of inp max_out _ _ _ out]
      zero_reaches_violates [OF that, of inp out max_out] by blast
  then show ?thesis
    using safe by blast
qed

text \<open>
  C2 on the stream \<open>00 41 20 01\<close>: one literal, then a match at distance 2 with only
  one byte of output behind it; the call returns 0.
\<close>

theorem decoder_never_faults_witness:
  "(\<exists>r out'. lz77_decompress [0x00, 0x41, 0x20, 0x01] 4 [0, 0, 0, 0] 4 = Inr (r, out') \<and>
       0 \<le> r \<and> (r = 0 \<or> r \<le> 4)) \<and>
   reaches [0x00, 0x41, 0x20, 0x01] 4 4 32 3 1 \<and>
   violates [0x00, 0x41, 0x20, 0x01] 4 4 32 3 1 \<and>
   (\<exists>out'. lz77_decompress [0x00, 0x41, 0x20, 0x01] 4 [0, 0, 0, 0] 4 = Inr (0, out'))"
proof -
  let ?I = "[0x00, 0x41, 0x20, 0x01] :: byte list"
  have r0: "reaches ?I 4 4 0 1 0"
    using reaches_first [of ?I 4 4] by simp
  have "reaches ?I 4 4 (unat (?I ! (1 + wire_in 0))) (1 + wire_in 0 + 1) (0 + wire_len ?I 0 1)"
    by (rule reaches_next [OF r0]) (simp_all add: violates_def wire_in_def wire_len_def)
  then have r1: "reaches ?I 4 4 32 3 1"
    by (simp add: wire_in_def wire_len_def numeral_3_eq_3)
  have v: "violates ?I 4 4 32 3 1"
    by (simp add: violates_def wire_in_def wire_len_def wire_dist_def)
  show ?thesis
    using decoder_never_faults [of ?I 4 "[0, 0, 0, 0]" 4] r1 v by auto
qed

text \<open>
  C7: the result of \<open>lz77_decompress\<close> does not depend on the high 3 bits of the first
  byte, and the first token is a literal run of \<open>(first byte mod 32) + 1\<close> bytes. Every
  later token has the byte before it as its control value, unchanged, and the call
  returns what that reading gives: 0 at a token that violates a bound, the output
  position after the last token otherwise.
\<close>

theorem first_control_byte_masked:
  assumes "0 < len"
  shows "lz77_decompress (b # rest) len out max_out =
           lz77_decompress ((b AND 31) # rest) len out max_out \<and>
         lz77_decompress (b # rest) len out max_out =
           (let run = unat b mod 32 + 1 in
            if int run > max_out \<or> 1 + run > nat len then Inr (0, out)
            else
              let out' = memcpy out 0 (b # rest) 1 run in
              if 1 + run > ip_bound (nat len) then Inr (int run, out')
              else dec_loop (b # rest) (nat len) max_out (unat ((b # rest) ! (1 + run)))
                     (2 + run) run out') \<and>
         (\<forall>ctrl ip op. reaches (b # rest) (nat len) max_out ctrl ip op \<longrightarrow>
            ((ip = 1 \<and> ctrl = unat b mod 32) \<or>
             (2 \<le> ip \<and> ctrl = unat ((b # rest) ! (ip - 1)))) \<and>
            (violates (b # rest) (nat len) max_out ctrl ip op \<longrightarrow>
               (\<exists>out'. lz77_decompress (b # rest) len out max_out = Inr (0, out'))) \<and>
            (\<not> violates (b # rest) (nat len) max_out ctrl ip op \<and>
             ip + wire_in ctrl + 2 > nat len \<longrightarrow>
               (\<exists>out'. lz77_decompress (b # rest) len out max_out =
                  Inr (int (op + wire_len (b # rest) ctrl ip), out'))))"
proof -
  have m: "(b AND 31) AND 31 = b AND 31"
    by (simp add: and.assoc)
  have rd: "read_in (x # rest) (nat len) 0 = Inr x" for x
    using assms by (simp add: read_in_def)
  have first: "lz77_decompress (b # rest) len out max_out =
           lz77_decompress ((b AND 31) # rest) len out max_out"
    using assms dec_loop_hd [of 1 b rest "nat len" max_out "unat (b AND 31)" 0 out "b AND 31"]
    by (simp add: lz77_decompress_def rd m)
  define run where "run = unat b mod 32 + 1"
  have tok: "dec_token (b # rest) (nat len) max_out (unat (b AND 31)) 1 0 out =
      (if int run > max_out \<or> 1 + run > nat len then Inr (Stop out)
       else Inr (Cont (1 + run) run (memcpy out 0 (b # rest) 1 run)))"
    by (auto simp: dec_token_def dec_literal_def copy_in_def Let_def unat_and_31 run_def)
  have second: "lz77_decompress (b # rest) len out max_out =
           (if int run > max_out \<or> 1 + run > nat len then Inr (0, out)
            else
              if 1 + run > ip_bound (nat len) then Inr (int run, memcpy out 0 (b # rest) 1 run)
              else dec_loop (b # rest) (nat len) max_out (unat ((b # rest) ! (1 + run)))
                     (2 + run) run (memcpy out 0 (b # rest) 1 run))"
  proof (cases "int run > max_out \<or> 1 + run > nat len")
    case True
    then show ?thesis
      using assms tok by (simp add: lz77_decompress_def rd dec_loop_cases)
  next
    case False
    show ?thesis
    proof (cases "1 + run > ip_bound (nat len)")
      case True
      then show ?thesis
        using assms tok False by (simp add: lz77_decompress_def rd dec_loop_cases)
    next
      case nb: False
      then have "1 + run < nat len"
        by (simp add: ip_bound_def split: if_splits)
      then have rd1: "read_in (b # rest) (nat len) (1 + run) = Inr ((b # rest) ! (1 + run))"
        by (simp add: read_in_def)
      have tok1: "dec_token (b # rest) (nat len) max_out (unat (b AND 31)) 1 0 out =
          Inr (Cont (1 + run) run (memcpy out 0 (b # rest) 1 run))"
        using tok False by simp
      have "dec_loop (b # rest) (nat len) max_out (unat (b AND 31)) 1 0 out =
          dec_loop (b # rest) (nat len) max_out (unat ((b # rest) ! (1 + run)))
                     (1 + run + 1) run (memcpy out 0 (b # rest) 1 run)"
        by (subst dec_loop_cases) (simp only: tok1 rd1 nb sum.case token_result.case if_False)
      then show ?thesis
        using assms False nb
        by (simp add: lz77_decompress_def rd)
    qed
  qed
  have second_let: "lz77_decompress (b # rest) len out max_out =
           (let run = unat b mod 32 + 1 in
            if int run > max_out \<or> 1 + run > nat len then Inr (0, out)
            else
              let out' = memcpy out 0 (b # rest) 1 run in
              if 1 + run > ip_bound (nat len) then Inr (int run, out')
              else dec_loop (b # rest) (nat len) max_out (unat ((b # rest) ! (1 + run)))
                     (2 + run) run out')"
    unfolding Let_def by (rule second [unfolded run_def])
  show ?thesis
  proof (intro conjI allI impI)
    show "lz77_decompress (b # rest) len out max_out =
           lz77_decompress ((b AND 31) # rest) len out max_out"
      by (rule first)
    show "lz77_decompress (b # rest) len out max_out =
           (let run = unat b mod 32 + 1 in
            if int run > max_out \<or> 1 + run > nat len then Inr (0, out)
            else
              let out' = memcpy out 0 (b # rest) 1 run in
              if 1 + run > ip_bound (nat len) then Inr (int run, out')
              else dec_loop (b # rest) (nat len) max_out (unat ((b # rest) ! (1 + run)))
                     (2 + run) run out')"
      by (rule second_let)
    show "(ip = 1 \<and> ctrl = unat b mod 32) \<or>
             (2 \<le> ip \<and> ctrl = unat ((b # rest) ! (ip - 1)))"
      if "reaches (b # rest) (nat len) max_out ctrl ip op" for ctrl ip op
      using reaches_ctrl [OF that] by simp
    show "\<exists>out'. lz77_decompress (b # rest) len out max_out = Inr (0, out')"
      if "reaches (b # rest) (nat len) max_out ctrl ip op"
        "violates (b # rest) (nat len) max_out ctrl ip op" for ctrl ip op
      by (rule reaches_violates_zero [OF assms that])
    show "\<exists>out'. lz77_decompress (b # rest) len out max_out =
                  Inr (int (op + wire_len (b # rest) ctrl ip), out')"
      if "reaches (b # rest) (nat len) max_out ctrl ip op"
        "\<not> violates (b # rest) (nat len) max_out ctrl ip op \<and>
             ip + wire_in ctrl + 2 > nat len" for ctrl ip op
      using reaches_last_token [OF assms that(1)] that(2) by blast
  qed
qed

text \<open>
  C7 on the stream \<open>E0 07 20 00\<close>, whose first byte \<open>E0\<close> is read as a literal run of
  one byte, and on \<open>00 41 E0 05 00\<close>, whose later byte \<open>E0\<close> is read as an extended
  match of 14 bytes.
\<close>

theorem first_control_byte_masked_witness:
  "lz77_decompress [0xE0, 7, 0x20, 0x00] 4 [0, 0, 0, 0, 0] 5 =
     lz77_decompress [0x00, 7, 0x20, 0x00] 4 [0, 0, 0, 0, 0] 5 \<and>
   lz77_decompress [0xE0, 7, 0x20, 0x00] 4 [0, 0, 0, 0, 0] 5 = Inr (4, [7, 7, 7, 7, 0]) \<and>
   reaches [0x00, 0x41, 0xE0, 0x05, 0x00] 5 16 224 3 1 \<and>
   (\<exists>out'. lz77_decompress [0x00, 0x41, 0xE0, 0x05, 0x00] 5 (replicate 16 0) 16 =
      Inr (15, out'))"
proof -
  let ?I = "[0x00, 0x41, 0xE0, 0x05, 0x00] :: byte list"
  have d: "lz77_decompress [0x00, 7, 0x20, 0x00] 4 [0, 0, 0, 0, 0] 5 = Inr (4, [7, 7, 7, 7, 0])"
    by code_simp
  have r0: "reaches ?I 5 16 0 1 0"
    using reaches_first [of ?I 5 16] by simp
  have "reaches ?I 5 16 (unat (?I ! (1 + wire_in 0))) (1 + wire_in 0 + 1) (0 + wire_len ?I 0 1)"
    by (rule reaches_next [OF r0]) (simp_all add: violates_def wire_in_def wire_len_def)
  then have r1: "reaches ?I 5 16 224 3 1"
    by (simp add: wire_in_def wire_len_def numeral_3_eq_3)
  have nv: "\<not> violates ?I 5 16 224 3 1" and last: "3 + wire_in 224 + 2 > (5::nat)"
    and wl: "1 + wire_len ?I 224 3 = 15"
    by (simp_all add: violates_def wire_in_def wire_len_def wire_dist_def numeral_3_eq_3)
  have five: "(0::int) < 5" and n5: "nat 5 = (5::nat)"
    by simp_all
  note T = first_control_byte_masked [OF five, of "0x00" "[0x41, 0xE0, 0x05, 0x00]"
      "replicate 16 0" 16, THEN conjunct2, THEN conjunct2, rule_format, unfolded n5, OF r1,
      THEN conjunct2, THEN conjunct2, rule_format, OF conjI [OF nv last]]
  have e: "\<exists>out'. lz77_decompress ?I 5 (replicate 16 0) 16 = Inr (15, out')"
    using T wl by simp
  have four: "(0::int) < 4"
    by simp
  note U = first_control_byte_masked [OF four, of "0xE0" "[7, 0x20, 0x00]" "[0, 0, 0, 0, 0]" 5,
      THEN conjunct1]
  have u: "lz77_decompress [0xE0, 7, 0x20, 0x00] 4 [0, 0, 0, 0, 0] 5 =
     lz77_decompress [0x00, 7, 0x20, 0x00] 4 [0, 0, 0, 0, 0] 5"
    using U by simp
  show ?thesis
    using u d r1 e by simp
qed

section \<open>Invariants of the compressor\<close>

lemma mask24: "(0xffffff :: 32 word) = mask 24"
  by (simp add: mask_eq_exp_minus_1)

lemma seq24_byte0: "ucast (seq24 b p) = b ! p"
  by (rule bit_eqI) (auto simp: seq24_def lz77_read32_def mask24 bit_simps dest: bit_imp_le_length)

lemma seq24_byte1: "ucast (drop_bit 8 (seq24 b p)) = b ! (p + 1)"
  by (rule bit_eqI) (auto simp: seq24_def lz77_read32_def mask24 bit_simps dest: bit_imp_le_length)

lemma seq24_byte2: "ucast (drop_bit 16 (seq24 b p)) = b ! (p + 2)"
  by (rule bit_eqI) (auto simp: seq24_def lz77_read32_def mask24 bit_simps dest: bit_imp_le_length)

lemma seq24_eq:
  assumes "seq24 b p = seq24 b q"
  shows "b ! p = b ! q" "b ! (p + 1) = b ! (q + 1)" "b ! (p + 2) = b ! (q + 2)"
  using assms seq24_byte0 [of b p] seq24_byte1 [of b p] seq24_byte2 [of b p]
    seq24_byte0 [of b q] seq24_byte1 [of b q] seq24_byte2 [of b q]
  by simp_all

lemma seq24_ne: "seq24 b p \<noteq> 0x1000000"
proof
  assume "seq24 b p = 0x1000000"
  then have "bit (seq24 b p) 24 = bit (0x1000000 :: 32 word) 24"
    by simp
  then show False
    by (simp add: seq24_def bit_simps)
qed

lemma u32_id: "x < 2 ^ 32 \<Longrightarrow> u32 x = x"
  by (simp add: u32_def)

lemma dist32_lt:
  assumes "ref < ip" "ip < 2 ^ 32"
  shows "dist32 ip ref = ip - ref"
proof -
  have "(int ip - int ref) mod 2 ^ 32 = int ip - int ref"
    using assms by (intro mod_pos_pos_trivial) auto
  then show ?thesis
    using assms by (simp add: dist32_def)
qed

lemma match_scan_props:
  assumes "p \<le> e"
  shows "r \<le> match_scan b r p e \<and> p + (match_scan b r p e - r) \<le> e \<and>
         (\<forall>i < match_scan b r p e - r. b ! (r + i) = b ! (p + i))"
  using assms
proof (induction b r p e rule: match_scan.induct)
  case (1 b r p e)
  show ?case
  proof (cases "p < e \<and> b ! r = b ! p")
    case False
    then have "match_scan b r p e = r"
      by (subst match_scan.simps) auto
    then show ?thesis
      using "1.prems" by simp
  next
    case True
    define m where "m = match_scan b (r + 1) (p + 1) e"
    have eq: "match_scan b r p e = m"
      using True by (subst match_scan.simps) (simp add: m_def)
    have pe: "p + 1 \<le> e"
      using True by simp
    note IH = "1.IH" [OF True pe, folded m_def]
    have a: "r \<le> m" and c: "p + (m - r) \<le> e"
      using IH by linarith+
    have "b ! (r + i) = b ! (p + i)" if "i < m - r" for i
    proof (cases i)
      case 0
      then show ?thesis using True by simp
    next
      case (Suc j)
      then have "j < m - (r + 1)" using that by simp
      then have "b ! (r + 1 + j) = b ! (p + 1 + j)" using IH by blast
      then show ?thesis using Suc by simp
    qed
    then show ?thesis
      using a c by (simp add: eq)
  qed
qed

lemma match_len_props:
  assumes "p \<le> e"
  shows "p + match_len b r p e \<le> e" "i < match_len b r p e \<Longrightarrow> b ! (r + i) = b ! (p + i)"
proof -
  note ms = match_scan_props [OF assms, of r b]
  show "p + match_len b r p e \<le> e"
    unfolding match_len_def using ms by blast
  show "i < match_len b r p e \<Longrightarrow> b ! (r + i) = b ! (p + i)"
    unfolding match_len_def using ms by blast
qed

lemma valid_match_from_seq:
  assumes "seq24 inp ref = seq24 inp pos" "ref < pos" "pos - ref < MAX_DISTANCE" "pos + 3 \<le> n"
    "len = match_len inp (ref + 3) (pos + 3) n + 1"
  shows "valid_match inp n pos len (pos - ref)"
proof -
  note ml = match_len_props [where p = "pos + 3" and e = n and b = inp and r = "ref + 3", OF assms(4)]
  have A: "inp ! (pos + i) = inp ! (ref + i)" if "i < len + 2" for i
  proof (cases "i < 3")
    case True
    then have "i = 0 \<or> i = 1 \<or> i = 2" by auto
    then show ?thesis
      using seq24_eq [OF assms(1)] by auto
  next
    case False
    define j where "j = i - 3"
    have j: "i = 3 + j" "j < match_len inp (ref + 3) (pos + 3) n"
      using False that assms(5) by (simp_all add: j_def)
    then have "inp ! (ref + 3 + j) = inp ! (pos + 3 + j)"
      using ml(2) by simp
    then show ?thesis using j by (simp add: add.assoc)
  qed
  have B: "inp ! (pos + i) = inp ! (pos + i - (pos - ref))" if "i < len + 2" for i
  proof -
    have "pos + i - (pos - ref) = ref + i"
      using assms(2) by simp
    then show ?thesis
      using A [OF that] by simp
  qed
  have C: "pos + len + 2 \<le> n"
    using ml(1) assms(5) by simp
  have D: "1 \<le> len" "1 \<le> pos - ref" "pos - ref \<le> pos"
    using assms(2,5) by simp_all
  show ?thesis
    unfolding valid_match_def using B C D assms(3) by blast
qed

lemma find_match_inv:
  assumes "find_match inp lim htab ip = (ip1, ref, distance, htab1)"
    "\<forall>h. htab h < ip" "ip \<le> lim" "lim < 2 ^ 32" "ip1 < lim"
  shows "ref < ip1 - 1 \<and> distance = ip1 - 1 - ref \<and> distance < MAX_DISTANCE \<and>
         seq24 inp ref = seq24 inp (ip1 - 1) \<and> (\<forall>h. htab1 h < ip1)"
  using assms
proof (induction inp lim htab ip rule: find_match.induct)
  case (1 inp lim htab ip)
  let ?h = "slot (seq24 inp ip)"
  let ?d = "dist32 ip (htab ?h)"
  let ?cmp = "if ?d < MAX_DISTANCE then seq24 inp (htab ?h) else 0x1000000"
  define c where "c \<longleftrightarrow> seq24 inp ip \<noteq> ?cmp"
  define r where "r = htab ?h"
  define d where "d = ?d"
  define h' where "h' = htab(?h := u32 ip)"
  have eq: "find_match inp lim htab ip =
      (if ip \<ge> lim then (ip, r, d, h')
       else if c then find_match inp lim h' (ip + 1)
       else (ip + 1, r, d, h'))"
    by (subst find_match.simps) (simp only: Let_def c_def r_def d_def h'_def)
  have lt: "ip < lim"
    using "1.prems"(1,5) eq by (cases "ip \<ge> lim") simp_all
  then have u: "u32 ip = ip"
    using "1.prems"(4) by (simp add: u32_id)
  have inv': "\<forall>h. h' h < ip + 1"
    using "1.prems"(2) u by (auto simp: less_Suc_eq h'_def)
  show ?case
  proof (cases c)
    case True
    have rec: "find_match inp lim h' (ip + 1) = (ip1, ref, distance, htab1)"
      using "1.prems"(1) eq lt True by simp
    have nlim: "\<not> lim \<le> ip" using lt by simp
    have le: "ip + 1 \<le> lim" using lt by simp
    have ne: "seq24 inp ip \<noteq> ?cmp" using True unfolding c_def by assumption
    show ?thesis
      by (rule "1.IH" [OF refl refl refl refl refl refl nlim ne
            rec [unfolded h'_def] inv' [unfolded h'_def] le "1.prems"(4,5)])
  next
    case False
    have "(ip + 1, r, d, h') = (ip1, ref, distance, htab1)"
      using "1.prems"(1) eq lt False by simp
    then have res: "ip1 = ip + 1" "ref = r" "distance = d" "htab1 = h'"
      by simp_all
    have rlt: "r < ip"
      using "1.prems"(2) by (simp add: r_def)
    have dd: "d = ip - r"
      unfolding d_def r_def [symmetric] using rlt lt "1.prems"(4) by (intro dist32_lt) simp_all
    have found: "seq24 inp ip = ?cmp"
      using False unfolding c_def by simp
    have dlt: "?d < MAX_DISTANCE"
    proof (rule ccontr)
      assume "\<not> ?d < MAX_DISTANCE"
      then have "seq24 inp ip = 0x1000000" using found by simp
      then show False using seq24_ne by blast
    qed
    then have "seq24 inp ip = seq24 inp r"
      using found by (simp add: r_def)
    then show ?thesis
      using res rlt dd dlt inv' by (simp add: d_def)
  qed
qed

lemma lazy_probe_valid:
  assumes lp: "lazy_probe inp n htab lim ip k (ls, len, d, r) = (ls', len', d', r')"
    and vm: "valid_match inp n (ip + ls) len d"
    and inv: "\<forall>h. htab h \<le> ip"
    and k: "1 \<le> k" and lim: "lim + 13 \<le> n" "n < 2 ^ 32"
    and ls: "0 < ls \<longrightarrow> 3 \<le> len"
  shows "valid_match inp n (ip + ls') len' d' \<and> (ls' = ls \<or> ls' = k) \<and> (0 < ls' \<longrightarrow> 3 \<le> len')"
proof -
  let ?h = "slot (seq24 inp (ip + k))"
  let ?ref = "htab ?h"
  let ?d = "dist32 (ip + k) ?ref"
  let ?len = "match_len inp (?ref + 3) (ip + k + 3) n + 1"
  define acc where "acc \<longleftrightarrow> ip + k < lim \<and> ?d < MAX_DISTANCE \<and> seq24 inp ?ref = seq24 inp (ip + k)
      \<and> ?len > len + (if len < 7 then 1 else 0)"
  have eq: "lazy_probe inp n htab lim ip k (ls, len, d, r) =
      (if acc then (k, ?len, ?d, ?ref) else (ls, len, d, r))"
    by (simp add: lazy_probe_def Let_def acc_def)
  show ?thesis
  proof (cases acc)
    case False
    from lp [unfolded eq] False have "(ls, len, d, r) = (ls', len', d', r')"
      by (simp only: if_False)
    then have "ls' = ls" "len' = len" "d' = d"
      by auto
    then show ?thesis using vm ls by simp
  next
    case True
    from lp [unfolded eq] True have "(k, ?len, ?d, ?ref) = (ls', len', d', r')"
      by (simp only: if_True)
    then have res: "ls' = k" "len' = ?len" "d' = ?d"
      by auto
    have a: "ip + k < lim" "?d < MAX_DISTANCE" "seq24 inp ?ref = seq24 inp (ip + k)"
      "?len > len + (if len < 7 then 1 else 0)"
      using True by (simp_all add: acc_def)
    have "?ref \<le> ip" using inv by blast
    then have rlt: "?ref < ip + k"
      using k by linarith
    have dd: "?d = ip + k - ?ref"
      using rlt a(1) lim by (intro dist32_lt) simp_all
    have pos3: "ip + k + 3 \<le> n"
      using a(1) lim by simp
    have dlt: "ip + k - ?ref < MAX_DISTANCE"
      using a(2) dd by simp
    have v: "valid_match inp n (ip + k) ?len (ip + k - ?ref)"
      by (rule valid_match_from_seq [OF a(3) rlt dlt pos3 refl])
    have "1 \<le> len" using vm by (simp add: valid_match_def)
    then have "3 \<le> ?len" using a(4) by (simp split: if_splits)
    then show ?thesis
      unfolding res dd using v by simp
  qed
qed

lemma seed_boundary_inv:
  assumes "seed_boundary inp n htab ip = (ip', htab')" "ip + 2 \<le> n" "n < 2 ^ 32"
    "\<forall>h. htab h < ip + 2"
  shows "ip' = ip + 2 \<and> (\<forall>h. htab' h < ip + 2)"
proof (cases "ip + 4 \<le> n")
  case True
  have u: "u32 ip = ip" "u32 (ip + 1) = ip + 1"
    using assms(2,3) by (simp_all add: u32_id)
  have "(ip + 1 + 1, (htab(slot (lz77_read32 inp ip AND 0xffffff) := u32 ip))
            (slot (drop_bit 8 (lz77_read32 inp ip)) := u32 (ip + 1))) = (ip', htab')"
    using assms(1) True by (simp add: seed_boundary_def Let_def)
  then have "ip' = ip + 2" "htab' = (htab(slot (lz77_read32 inp ip AND 0xffffff) := ip))
            (slot (drop_bit 8 (lz77_read32 inp ip)) := ip + 1)"
    using u by auto
  then show ?thesis using assms(4) by simp
next
  case False
  then show ?thesis
    using assms by (auto simp: seed_boundary_def Let_def split: if_splits)
qed

lemma backfill_inv:
  assumes "\<forall>h. htab h < ip" "ip < 2 ^ 32"
  shows "\<forall>h. backfill inp n htab ip len h < ip"
proof -
  have "u32 (ip - len + 5) = ip - len + 5" if "ip - len + 5 + 3 < ip"
    using that assms(2) by (simp add: u32_id)
  then show ?thesis
    using assms(1) by (auto simp: backfill_def Let_def)
qed

lemma main_loop_stop:
  "\<not> ip < n - 13 \<Longrightarrow> main_loop inp n htab anchor ip = ([], anchor, htab)"
  by (subst main_loop.simps) simp

lemma main_loop_break:
  assumes "ip < n - 13" "find_match inp (n - 13) htab ip = (ip1, ref, distance, htab1)"
    "n - 13 \<le> ip1"
  shows "main_loop inp n htab anchor ip = ([], anchor, htab1)"
  using assms by (subst main_loop.simps) simp

lemma main_loop_step:
  assumes lt: "ip < n - 13" and fm: "find_match inp (n - 13) htab ip = (ip1, ref, distance, htab1)"
    and nb: "ip1 < n - 13"
    and lp: "lazy_probe inp n htab1 (n - 13) (ip1 - 1) 2
       (lazy_probe inp n htab1 (n - 13) (ip1 - 1) 1
          (0, match_len inp (ref + 3) (ip1 - 1 + 3) n + 1, distance, ref))
     = (lazy_step, len', distance', ref')"
    and sb: "seed_boundary inp n htab1
        ((if lazy_step > 0 then ip1 - 1 + lazy_step else ip1 - 1) + len') = (ip5, htab2)"
    and ml: "main_loop inp n (backfill inp n htab2 ip5 len') ip5 ip5 = (es, a', h')"
  shows "main_loop inp n htab anchor ip =
          ((if ip1 - 1 > anchor then [Literals (ip1 - 1 - anchor) anchor] else [])
           @ (if lazy_step > 0 then [Literals lazy_step (ip1 - 1)] else [])
           @ [Match len' distance'] @ es, a', h')"
proof -
  have c1: "(ip < n - 13) = True" using lt by simp
  have c2: "(n - 13 \<le> ip1) = False" using nb by simp
  show ?thesis
    by (subst main_loop.simps)
      (simp only: Let_def c1 c2 fm lp sb ml prod.case if_True if_False)
qed

lemma main_loop_good:
  assumes "main_loop inp n htab anchor ip = (es, a', h')"
    "\<forall>h. htab h < ip" "anchor \<le> ip" "anchor \<le> n" "n < 2 ^ 32"
  shows "good inp n anchor es a'"
  using assms
proof (induction "n - 13 - ip" arbitrary: htab anchor ip es a' h' rule: less_induct)
  case less
  note ml = less.prems(1) and inv = less.prems(2) and n32 = less.prems(5)
  show ?case
  proof (cases "ip < n - 13")
    case False
    then have "([], anchor, htab) = (es, a', h')"
      using ml main_loop_stop [of ip n inp htab anchor] by simp
    then have "es = []" "a' = anchor" by auto
    then show ?thesis using less.prems(4) by (simp add: good_Nil)
  next
    case lt: True
    then have n13: "n - 13 + 13 \<le> n" by simp
    obtain ip1 ref distance htab1 where
      fm: "find_match inp (n - 13) htab ip = (ip1, ref, distance, htab1)"
      by (metis prod_cases4)
    show ?thesis
    proof (cases "ip1 < n - 13")
      case False
      then have "([], anchor, htab1) = (es, a', h')"
        using ml main_loop_break [OF lt fm, of anchor] by simp
      then have "es = []" "a' = anchor" by auto
      then show ?thesis using less.prems(4) by (simp add: good_Nil)
    next
      case nb: True
      define ip2 where "ip2 = ip1 - 1"
      have ip1: "ip < ip1"
        using find_match_ip [OF fm] nb by simp
      then have ip2: "ip \<le> ip2" "ip1 = ip2 + 1"
        by (simp_all add: ip2_def)
      have lim32: "n - 13 < (2::nat) ^ 32"
        using n32 by simp
      have fi: "ref < ip2 \<and> distance = ip2 - ref \<and> distance < MAX_DISTANCE \<and>
         seq24 inp ref = seq24 inp ip2 \<and> (\<forall>h. htab1 h < ip1)"
        unfolding ip2_def using lt
        by (intro find_match_inv [OF fm inv _ lim32 nb]) simp
      define len0 where "len0 = match_len inp (ref + 3) (ip2 + 3) n + 1"
      have pos3: "ip2 + 3 \<le> n"
        using nb ip2 by simp
      have d0: "ip2 - ref < MAX_DISTANCE"
        using fi by simp
      have v0: "valid_match inp n (ip2 + 0) len0 distance"
        using valid_match_from_seq [of inp ref ip2 n len0] fi pos3 len0_def by simp
      have inv1: "\<forall>h. htab1 h \<le> ip2"
        using fi ip2 by (simp add: less_Suc_eq_le)
      obtain ls1 len1 d1 r1 where
        b1: "lazy_probe inp n htab1 (n - 13) ip2 1 (0, len0, distance, ref) = (ls1, len1, d1, r1)"
        by (metis prod_cases4)
      have p1: "valid_match inp n (ip2 + ls1) len1 d1 \<and> (ls1 = 0 \<or> ls1 = 1) \<and>
          (0 < ls1 \<longrightarrow> 3 \<le> len1)"
        by (rule lazy_probe_valid [OF b1 v0 inv1 _ n13 n32]) simp_all
      obtain ls len' d' r' where
        b2: "lazy_probe inp n htab1 (n - 13) ip2 2 (ls1, len1, d1, r1) = (ls, len', d', r')"
        by (metis prod_cases4)
      have p2: "valid_match inp n (ip2 + ls) len' d' \<and> (ls = ls1 \<or> ls = 2) \<and>
          (0 < ls \<longrightarrow> 3 \<le> len')"
        using p1 by (intro lazy_probe_valid [OF b2 _ inv1 _ n13 n32]) simp_all
      have ls2: "ls \<le> 2"
        using p1 p2 by auto
      define ip4 where "ip4 = ip2 + ls + len'"
      have ip4n: "ip4 + 2 \<le> n"
        using p2 by (simp add: valid_match_def ip4_def)
      have ip3: "(if ls > 0 then ip1 - 1 + ls else ip1 - 1) + len' = ip4"
        by (simp add: ip4_def ip2_def)
      obtain ip5 htab2 where sb: "seed_boundary inp n htab1 ip4 = (ip5, htab2)"
        by (metis prod.exhaust)
      have len1': "1 \<le> len'"
        using p2 by (simp add: valid_match_def)
      have "\<forall>h. htab1 h < ip4 + 2"
        using inv1 by (auto simp: ip4_def intro: le_less_trans)
      then have si: "ip5 = ip4 + 2 \<and> (\<forall>h. htab2 h < ip4 + 2)"
        by (rule seed_boundary_inv [OF sb ip4n n32])
      then have ip5: "ip5 = ip4 + 2" and inv2: "\<forall>h. htab2 h < ip5"
        by simp_all
      have ip5n: "ip5 \<le> n" "ip5 < 2 ^ 32"
        using ip5 ip4n n32 by simp_all
      have inv3: "\<forall>h. backfill inp n htab2 ip5 len' h < ip5"
        by (rule backfill_inv [OF inv2 ip5n(2)])
      obtain es' a'' h'' where
        rec: "main_loop inp n (backfill inp n htab2 ip5 len') ip5 ip5 = (es', a'', h'')"
        by (metis prod_cases3)
      have step: "main_loop inp n htab anchor ip =
          ((if ip1 - 1 > anchor then [Literals (ip1 - 1 - anchor) anchor] else [])
           @ (if ls > 0 then [Literals ls (ip1 - 1)] else [])
           @ [Match len' d'] @ es', a'', h'')"
        by (rule main_loop_step [OF lt fm nb _ _ rec])
           (simp_all only: b1 [unfolded ip2_def len0_def] b2 [unfolded ip2_def] ip3 sb)
      have dec: "n - 13 - ip5 < n - 13 - ip"
        using lt ip2 ip5 by (simp add: ip4_def)
      have g: "good inp n ip5 es' a''"
        by (rule less.hyps [OF dec rec inv3 le_refl ip5n(1) n32])
      define k where "k = ip2 - anchor"
      have k: "anchor + k = ip2"
        using ip2 less.prems(3) by (simp add: k_def)
      have v: "valid_match inp n (anchor + k + ls) len' d'"
        using p2 k by simp
      have g': "good inp n (anchor + k + ls + len' + 2) es' a''"
        using g ip5 k by (simp add: ip4_def)
      have "good inp n anchor
         ((if 0 < k then [Literals k anchor] else []) @ (if 0 < ls then [Literals ls (anchor + k)] else [])
          @ Match len' d' # es') a''"
        using p2 by (intro good_group [OF v ls2 _ g']) simp
      moreover have "es = (if 0 < k then [Literals k anchor] else []) @
          (if 0 < ls then [Literals ls (anchor + k)] else []) @ Match len' d' # es'"
        and "a' = a''"
        using ml step k by (auto simp: ip2_def k_def)
      ultimately show ?thesis by simp
    qed
  qed
qed

lemma good_final: "good inp n a es a' \<Longrightarrow> a \<le> a' \<and> a' \<le> n"
  by (induction rule: good.induct) auto

lemma good_matches:
  "good inp n a es a' \<Longrightarrow> Match len d \<in> set es \<Longrightarrow> valid_match inp n 0 len d \<or> (1 \<le> len \<and> 1 \<le> d \<and> d < MAX_DISTANCE)"
  by (induction rule: good.induct) (auto simp: valid_match_def split: if_splits)

lemma good_match_range:
  assumes "good inp n a es a'" "Match len d \<in> set es"
  shows "1 \<le> len \<and> 1 \<le> d \<and> d < MAX_DISTANCE"
  using good_matches [OF assms] by (auto simp: valid_match_def)

lemma compress_emits_good:
  assumes "compress_emits inp n = (es, htab)" "n < 2 ^ 32"
  shows "\<exists>es0 a. es = es0 @ [Literals (n - a) a] \<and> good inp n 0 es0 a"
proof -
  obtain es0 a h where ml: "main_loop inp n (\<lambda>_. 0) 0 2 = (es0, a, h)"
    by (metis prod_cases3)
  have "good inp n 0 es0 a"
    by (rule main_loop_good [OF ml _ _ _ assms(2)]) simp_all
  moreover have "es = es0 @ [Literals (n - a) a]"
    using assms(1) ml by (simp add: compress_emits_def)
  ultimately show ?thesis by blast
qed

lemma main_loop_first:
  assumes "main_loop inp n htab 0 2 = (es, a', h')"
  shows "(es = [] \<and> a' = 0) \<or> (\<exists>k es'. es = Literals k 0 # es' \<and> 2 \<le> k \<and> k \<le> n)"
proof (cases "2 < n - 13")
  case False
  then show ?thesis
    using assms main_loop_stop [of 2 n inp htab 0] by simp
next
  case lt: True
  obtain ip1 ref distance htab1 where
    fm: "find_match inp (n - 13) htab 2 = (ip1, ref, distance, htab1)"
    by (metis prod_cases4)
  show ?thesis
  proof (cases "ip1 < n - 13")
    case False
    then show ?thesis
      using assms main_loop_break [OF lt fm, of 0] by simp
  next
    case nb: True
    have ip1: "2 < ip1"
      using find_match_ip [OF fm] nb by simp
    obtain lazy_step len' distance' ref' where
      lp: "lazy_probe inp n htab1 (n - 13) (ip1 - 1) 2
       (lazy_probe inp n htab1 (n - 13) (ip1 - 1) 1
          (0, match_len inp (ref + 3) (ip1 - 1 + 3) n + 1, distance, ref))
       = (lazy_step, len', distance', ref')"
      by (metis prod_cases4)
    obtain ip5 htab2 where
      sb: "seed_boundary inp n htab1
        ((if lazy_step > 0 then ip1 - 1 + lazy_step else ip1 - 1) + len') = (ip5, htab2)"
      by (metis prod.exhaust)
    obtain es' a'' h'' where
      rec: "main_loop inp n (backfill inp n htab2 ip5 len') ip5 ip5 = (es', a'', h'')"
      by (metis prod_cases3)
    have "main_loop inp n htab 0 2 =
          ((if ip1 - 1 > 0 then [Literals (ip1 - 1 - 0) 0] else [])
           @ (if lazy_step > 0 then [Literals lazy_step (ip1 - 1)] else [])
           @ [Match len' distance'] @ es', a'', h'')"
      by (rule main_loop_step [OF lt fm nb lp sb rec])
    then have "es = Literals (ip1 - 1) 0 # ((if lazy_step > 0 then [Literals lazy_step (ip1 - 1)] else [])
           @ [Match len' distance'] @ es')"
      using assms ip1 by simp
    then show ?thesis
      using ip1 nb by auto
  qed
qed

lemma compress_emits_first:
  assumes "compress_emits inp n = (es, htab)" "13 \<le> n"
  shows "\<exists>k es'. es = Literals k 0 # es' \<and> 2 \<le> k \<and> k \<le> n"
proof -
  obtain es0 a h where ml: "main_loop inp n (\<lambda>_. 0) 0 2 = (es0, a, h)"
    by (metis prod_cases3)
  have es: "es = es0 @ [Literals (n - a) a]"
    using assms(1) ml by (simp add: compress_emits_def)
  show ?thesis
    using main_loop_first [OF ml] es assms(2) by auto
qed

lemma literals_first:
  assumes "1 \<le> k"
  shows "\<exists>rest. literals k inp src =
      of_nat (min k 32 - 1) # take (min k 32) (drop src inp) @ rest"
proof (cases "k \<ge> 32")
  case True
  then show ?thesis
    by (subst literals.simps) (simp add: min_def)
next
  case False
  then show ?thesis
    using assms by (subst literals.simps) (simp add: min_def)
qed

lemma first_token:
  assumes "bytes = literals k inp 0 @ more" "1 \<le> k" "k \<le> length inp"
    "out' = bytes @ drop (length bytes) out"
  shows "unat (hd out') + 1 = min k 32 \<and> take (min k 32) (tl out') = take (min k 32) inp"
proof -
  obtain rest where l: "literals k inp 0 = of_nat (min k 32 - 1) # take (min k 32) (drop 0 inp) @ rest"
    using literals_first [OF assms(2)] by blast
  have lt: "min k 32 - 1 < 256"
    by simp
  have u: "unat (of_nat (min k 32 - 1) :: byte) = min k 32 - 1"
    by (rule unat_byte [OF lt])
  have out': "out' = of_nat (min k 32 - 1) # take (min k 32) inp @ (rest @ more @ drop (length bytes) out)"
    using assms(1,4) l by simp
  have len: "length (take (min k 32) inp) = min k 32"
    using assms(3) by simp
  have "take (min k 32) (tl out') = take (min k 32) inp"
    unfolding out' using len by simp
  moreover have "unat (hd out') + 1 = min k 32"
    unfolding out' using u assms(2) by simp
  ultimately show ?thesis by simp
qed

text \<open>
  C6: for a positive length the first byte written by \<open>lz77_compress\<close> is the control
  byte of a literal run (below 32), and the run is the beginning of the input; from 13
  bytes on, the first call is \<open>literals\<close> at position 0 with at least 2 bytes, and the
  first token holds at least 2 bytes.
\<close>

theorem literal_lead_in:
  assumes "0 < len" "nat len \<le> length inp"
    "lz77_compress inp len out workmem = Inr (r, out', wm')"
  shows "unat (hd out') < 32 \<and> unat (hd out') + 1 \<le> nat len \<and>
         take (unat (hd out') + 1) (tl out') = take (unat (hd out') + 1) inp \<and>
         (13 \<le> len \<longrightarrow> 2 \<le> unat (hd out') + 1 \<and>
            (\<exists>k es. fst (compress_emits inp (nat len)) = Literals k 0 # es \<and> 2 \<le> k))"
proof (cases "len < 13")
  case True
  define bytes where "bytes = literals (nat len) inp 0"
  have "store_out bytes out workmem = Inr (r, out', wm')"
    using assms(1,3) True by (simp add: lz77_compress_def bytes_def)
  then have out': "out' = bytes @ drop (length bytes) out"
    by (auto simp: store_out_def split: if_splits)
  have k: "1 \<le> nat len" using assms(1) by simp
  have b: "bytes = literals (nat len) inp 0 @ []" by (simp add: bytes_def)
  note ft = first_token [OF b k assms(2) out']
  then show ?thesis
    using True by auto
next
  case False
  obtain es htab where ce: "compress_emits inp (nat len) = (es, htab)"
    by (metis prod.exhaust)
  have n13: "13 \<le> nat len" using False by simp
  obtain k es' where es: "es = Literals k 0 # es'" and k: "2 \<le> k" "k \<le> nat len"
    using compress_emits_first [OF ce n13] by blast
  define bytes where "bytes = concat (map (encode inp) es)"
  have "store_out bytes out htab = Inr (r, out', wm')"
    using assms(1,3) False ce by (simp add: lz77_compress_def bytes_def)
  then have out': "out' = bytes @ drop (length bytes) out"
    by (auto simp: store_out_def split: if_splits)
  have b: "bytes = literals k inp 0 @ concat (map (encode inp) es')"
    by (simp add: bytes_def es)
  have k1: "1 \<le> k" "k \<le> length inp"
    using k assms(2) by simp_all
  note ft = first_token [OF b k1 out']
  have "fst (compress_emits inp (nat len)) = Literals k 0 # es'"
    using ce es by simp
  then show ?thesis
    using ft k by auto
qed

lemma length_literals_le: "length (literals k inp src) \<le> k + (k + 31) div 32"
proof (induction k inp src rule: literals.induct)
  case (1 runs inp src)
  show ?case
  proof (cases "runs \<ge> 32")
    case True
    have "length (literals (runs - 32) inp (src + 32)) \<le> (runs - 32) + (runs - 32 + 31) div 32"
      using "1.IH" True by simp
    moreover have "length (literals runs inp src) \<le> 33 + length (literals (runs - 32) inp (src + 32))"
      using True by (subst literals.simps) simp
    ultimately show ?thesis
      using True by linarith
  next
    case False
    have "0 < runs \<Longrightarrow> 1 \<le> (runs + 31) div 32"
      by linarith
    then show ?thesis
      using False by (subst literals.simps) (auto simp: min_def)
  qed
qed

lemma length_match_chunks_le:
  "1 \<le> len \<Longrightarrow> length (match_chunks len d) \<le> len + 1 \<and> (3 \<le> len \<longrightarrow> length (match_chunks len d) \<le> len)"
proof (induction len d rule: match_chunks.induct)
  case (1 len d)
  show ?case
  proof (cases "262 < len")
    case True
    have "length (match_chunks (len - 262) d) \<le> len - 262 + 1"
      using "1.IH" True by simp
    moreover have "length (match_chunks len d) = 3 + length (match_chunks (len - 262) d)"
      using True by (subst match_chunks.simps) simp
    ultimately show ?thesis
      using True by linarith
  next
    case False
    then have "length (match_chunks len d) = (if len < 7 then 2 else 3)"
      by (subst match_chunks.simps) simp
    then show ?thesis
      using "1.prems" by (auto split: if_splits)
  qed
qed

lemma good_size:
  "good inp n a es a' \<Longrightarrow>
   length (concat (map (encode inp) es)) + (a + a div 32) \<le> a' + a' div 32"
proof (induction rule: good.induct)
  case (good_Nil a)
  then show ?case by simp
next
  case (good_group a k j len d es a')
  define b where "b = a + k + j + len + 2"
  define rest where "rest = length (concat (map (encode inp) es))"
  have vm: "1 \<le> len"
    using good_group.hyps(1) by (simp add: valid_match_def)
  have lk: "length (if 0 < k then literals k inp a else []) \<le> k + (k + 31) div 32"
    using length_literals_le [of k inp a] by simp
  have lj: "length (if 0 < j then literals j inp (a + k) else []) \<le> j + (if 0 < j then 1 else 0)"
    using length_literals_le [of j inp "a + k"] good_group.hyps(2) by (auto split: if_splits)
  have lm: "length (match len d) + (if 0 < j then 1 else 0) \<le> len + 1"
    using length_match_chunks_le [OF vm] good_group.hyps(3) by (auto simp: match_def)
  have ih: "rest + (b + b div 32) \<le> a' + a' div 32"
    using good_group.IH by (simp add: b_def rest_def)
  have dv: "(k + 31) div 32 + a div 32 \<le> 1 + b div 32"
    unfolding b_def by linarith
  have "length (concat (map (encode inp)
          ((if 0 < k then [Literals k a] else []) @ (if 0 < j then [Literals j (a + k)] else [])
           @ Match len d # es)))
      = length (if 0 < k then literals k inp a else [])
        + length (if 0 < j then literals j inp (a + k) else [])
        + length (match len d) + rest"
    by (simp add: rest_def)
  then show ?case
    using lk lj lm ih dv unfolding b_def by linarith
qed

lemma compress_emits_size:
  assumes "compress_emits inp n = (es, htab)" "n < 2 ^ 32"
  shows "length (concat (map (encode inp) es)) \<le> n + n div 32 + 1"
proof -
  obtain es0 a where es: "es = es0 @ [Literals (n - a) a]" and g: "good inp n 0 es0 a"
    using compress_emits_good [OF assms] by blast
  have an: "a \<le> n"
    using good_final [OF g] by simp
  have "length (concat (map (encode inp) es0)) \<le> a + a div 32"
    using good_size [OF g] by simp
  moreover have "length (literals (n - a) inp a) \<le> (n - a) + (n - a + 31) div 32"
    by (rule length_literals_le)
  moreover have "length (concat (map (encode inp) es)) =
      length (concat (map (encode inp) es0)) + length (literals (n - a) inp a)"
    by (simp add: es)
  ultimately show ?thesis
    using an by linarith
qed

text \<open>
  C5: for a length \<open>0 < len < 2 ^ 31\<close> and an output buffer of at least
  \<open>len + len div 32 + 128\<close> bytes, \<open>lz77_compress\<close> returns a value (no write outside
  the buffer), the value is at most \<open>len + len div 32 + 128\<close>, and the buffer is
  unchanged from that position on.
\<close>

theorem compressed_size_bound:
  assumes "0 < len" "len < 2 ^ 31" "nat len + nat len div 32 + 128 \<le> length out"
  shows "\<exists>r out' wm'. lz77_compress inp len out workmem = Inr (r, out', wm') \<and>
           0 \<le> r \<and> r \<le> len + len div 32 + 128 \<and>
           length out' = length out \<and> drop (nat r) out' = drop (nat r) out"
proof -
  define bytes where "bytes =
     (if len < 13 then literals (nat len) inp 0
      else concat (map (encode inp) (fst (compress_emits inp (nat len)))))"
  define wm where "wm = (if len < 13 then workmem else snd (compress_emits inp (nat len)))"
  have eq: "lz77_compress inp len out workmem = store_out bytes out wm"
    using assms(1) by (simp add: lz77_compress_def bytes_def wm_def split: prod.splits)
  have n32: "nat len < 2 ^ 32"
    using assms(2) by simp
  have sz: "length bytes \<le> nat len + nat len div 32 + 1"
  proof (cases "len < 13")
    case True
    then show ?thesis
      using length_literals_le [of "nat len" inp 0] by (simp add: bytes_def)
  next
    case False
    then show ?thesis
      using compress_emits_size [OF _ n32, of inp "fst (compress_emits inp (nat len))"
          "snd (compress_emits inp (nat len))"]
      by (simp add: bytes_def)
  qed
  then have fit: "length bytes \<le> length out"
    using assms(3) by simp
  have "int (nat len div 32) = len div 32"
    using assms(1) by (simp add: zdiv_int)
  then have "int (length bytes) \<le> len + len div 32 + 128"
    using sz assms(1) by linarith
  then show ?thesis
    using fit by (simp add: eq store_out_def)
qed

section \<open>Round trip\<close>

lemma length_memcpy:
  assumes "d + cnt \<le> length dst" "s + cnt \<le> length src"
  shows "length (memcpy dst d src s cnt) = length dst"
  using assms by (simp add: memcpy_def)

lemma take_memcpy:
  assumes "d + cnt \<le> length dst" "s + cnt \<le> length src"
  shows "take (d + cnt) (memcpy dst d src s cnt) = take d dst @ take cnt (drop s src)"
  using assms by (simp add: memcpy_def)

lemma take_add_split: "take (a + c) xs = take a xs @ take c (drop a xs)"
  by (simp add: take_add)

lemma slice_cong:
  assumes "take m xs = take m ys" "a + c \<le> m"
  shows "take c (drop a xs) = take c (drop a ys)"
proof -
  have "take c (drop a (take m xs)) = take c (drop a (take m ys))"
    using assms(1) by simp
  moreover have "take c (drop a (take m zs)) = take c (drop a zs)" for zs :: "'a list"
    using assms(2) by (simp add: drop_take min_def)
  ultimately show ?thesis by simp
qed

lemma periodic_slice:
  assumes "\<forall>i<c. x ! (a + i) = x ! (a + i - d)" "d \<le> a" "a + c \<le> length x"
  shows "take c (drop a x) = take c (drop (a - d) x)"
proof (rule nth_equalityI)
  show "length (take c (drop a x)) = length (take c (drop (a - d) x))"
    using assms(2,3) by simp
next
  fix i assume "i < length (take c (drop a x))"
  then have i: "i < c" by simp
  have "a - d + i = a + i - d"
    using assms(2) by simp
  then show "take c (drop a x) ! i = take c (drop (a - d) x) ! i"
    using i assms by simp
qed

lemma copy_chunks_copy:
  assumes "1 \<le> dist" "dist \<le> op" "op + remain \<le> length buf" "int (op + remain) \<le> max_out"
    "op + remain \<le> length x" "take op buf = take op x"
    "\<forall>i<remain. x ! (op + i) = x ! (op + i - dist)"
  shows "\<exists>buf'. copy_chunks buf max_out remain dist op (int op - int dist) = Inr (op + remain, buf')
           \<and> length buf' = length buf \<and> take (op + remain) buf' = take (op + remain) x"
  using assms
proof (induction remain arbitrary: op buf rule: less_induct)
  case (less remain)
  show ?case
  proof (cases "remain = 0")
    case True
    then show ?thesis
      using less.prems(6) by (subst copy_chunks.simps) simp
  next
    case False
    define chunk where "chunk = (if remain < dist then remain else dist)"
    have ch: "chunk \<le> remain" "chunk \<le> dist" "1 \<le> chunk"
      using False less.prems(1) by (auto simp: chunk_def)
    define buf1 where "buf1 = memcpy buf op buf (op - dist) chunk"
    have ref: "nat (int op - int dist) = op - dist"
      using less.prems(2) by simp
    have cr: "copy_ref buf max_out op (int op - int dist) chunk = Inr buf1"
      using ch less.prems(2,4) by (simp add: copy_ref_def buf1_def ref)
    have nz: "\<not> (remain = 0 \<or> dist = 0)"
      using False less.prems(1) by simp
    have step: "copy_chunks buf max_out remain dist op (int op - int dist) =
        copy_chunks buf1 max_out (remain - chunk) dist (op + chunk) (int (op + chunk) - int dist)"
    proof -
      have e: "int op - int dist + int chunk = int (op + chunk) - int dist"
        by simp
      have "copy_chunks buf max_out remain dist op (int op - int dist) =
        copy_chunks buf1 max_out (remain - chunk) dist (op + chunk)
          (int op - int dist + int chunk)"
        using nz cr by (subst copy_chunks.simps) (simp add: chunk_def [symmetric] Let_def)
      then show ?thesis
        by (simp only: e)
    qed
    have len1: "length buf1 = length buf"
      unfolding buf1_def using ch less.prems(2,3) by (intro length_memcpy) simp_all
    have "take (op + chunk) buf1 = take op buf @ take chunk (drop (op - dist) buf)"
      unfolding buf1_def using ch less.prems(2,3) by (intro take_memcpy) simp_all
    also have "take chunk (drop (op - dist) buf) = take chunk (drop (op - dist) x)"
      using less.prems(2) ch by (intro slice_cong [OF less.prems(6)]) simp
    also have "take chunk (drop (op - dist) x) = take chunk (drop op x)"
      using less.prems(2,5,7) ch by (intro periodic_slice [symmetric]) simp_all
    finally have t1: "take (op + chunk) buf1 = take (op + chunk) x"
      using less.prems(6) by (simp add: take_add_split)
    have per: "\<forall>i<remain - chunk. x ! (op + chunk + i) = x ! (op + chunk + i - dist)"
    proof (intro allI impI)
      fix i assume "i < remain - chunk"
      then have "chunk + i < remain" by simp
      then have "x ! (op + (chunk + i)) = x ! (op + (chunk + i) - dist)"
        using less.prems(7) by blast
      then show "x ! (op + chunk + i) = x ! (op + chunk + i - dist)"
        by (simp add: add.assoc)
    qed
    have lt: "remain - chunk < remain"
      using ch False by simp
    have "\<exists>buf'. copy_chunks buf1 max_out (remain - chunk) dist (op + chunk)
              (int (op + chunk) - int dist) = Inr (op + chunk + (remain - chunk), buf')
           \<and> length buf' = length buf1
           \<and> take (op + chunk + (remain - chunk)) buf' = take (op + chunk + (remain - chunk)) x"
      using less.prems(2,3,4,5) ch len1
      by (intro less.IH [OF lt less.prems(1) _ _ _ _ t1 per]) simp_all
    then show ?thesis
      using step len1 ch by simp
  qed
qed

lemma dec_loop_Cont:
  assumes "dec_token inp n max_out ctrl ip op buf = Inr (Cont ip' op' buf')"
  shows "dec_loop inp n max_out ctrl ip op buf = dec_from inp n max_out ip' op' buf'"
  by (subst dec_loop_cases) (simp add: assms dec_from_def)

lemma holds_at_append:
  assumes "holds_at s p (t @ u)"
  shows "holds_at s p t" "holds_at s (p + length t) u"
proof -
  have e: "take (length t + length u) (drop p s) = t @ u"
    using assms by (simp add: holds_at_def)
  have "take (length t) (take (length t + length u) (drop p s)) = t"
    unfolding e by simp
  then show "holds_at s p t"
    by (simp add: holds_at_def)
  have "drop (length t) (take (length t + length u) (drop p s)) = u"
    unfolding e by simp
  then show "holds_at s (p + length t) u"
    by (simp add: holds_at_def drop_take add.commute)
qed

lemma holds_at_length:
  assumes "holds_at s p t" "t \<noteq> []"
  shows "p + length t \<le> length s"
proof -
  define m where "m = length t"
  have "length (take m (drop p s)) = m"
    using assms(1) by (simp add: holds_at_def m_def)
  then have "m \<le> length s - p"
    by (simp add: min_def split: if_splits)
  moreover have "0 < m"
    using assms(2) by (simp add: m_def)
  ultimately show ?thesis
    unfolding m_def by linarith
qed

lemma holds_at_nth:
  assumes "holds_at s p t" "i < length t"
  shows "s ! (p + i) = t ! i"
proof -
  have "t \<noteq> []" using assms(2) by auto
  then have l: "p + length t \<le> length s"
    by (rule holds_at_length [OF assms(1)])
  have "t ! i = take (length t) (drop p s) ! i"
    using assms(1) by (simp add: holds_at_def)
  also have "\<dots> = s ! (p + i)"
    using assms(2) l by simp
  finally show ?thesis by simp
qed

lemma holds_at_Cons:
  assumes "holds_at s p (b # t)"
  shows "s ! p = b" "holds_at s (p + 1) t"
proof -
  show "s ! p = b"
    using holds_at_nth [OF assms, of 0] by simp
  show "holds_at s (p + 1) t"
    using holds_at_append(2) [of s p "[b]" t] assms by simp
qed

text \<open>One literal token in the stream.\<close>

lemma literal_token:
  assumes k: "1 \<le> k" "k \<le> 32"
    and tok: "holds_at s p (of_nat (k - 1) # bs)" "length bs = k"
    and bnd: "p + 1 + k \<le> n" "op + k \<le> length buf" "int (op + k) \<le> max_out"
  shows "\<exists>buf'. dec_from s n max_out p op buf = dec_from s n max_out (p + 1 + k) (op + k) buf'
           \<and> length buf' = length buf \<and> take (op + k) buf' = take op buf @ bs"
proof -
  have sp: "s ! p = of_nat (k - 1)" and rest: "holds_at s (p + 1) bs"
    using holds_at_Cons [OF tok(1)] by simp_all
  have ls: "p + 1 + k \<le> length s"
    using holds_at_length [OF tok(1)] tok(2) by simp
  have bs: "take k (drop (p + 1) s) = bs"
    using rest tok(2) by (simp add: holds_at_def)
  have "k - 1 < 256"
    using k by simp
  then have "unat (of_nat (k - 1) :: byte) = k - 1"
    by (rule unat_byte)
  then have c: "unat (s ! p) = k - 1"
    by (simp only: sp)
  have nb: "\<not> p > ip_bound n"
    using bnd(1) k by (simp add: ip_bound_def)
  have rd: "read_in s n p = Inr (s ! p)"
    using bnd(1) by (simp add: read_in_def)
  define buf' where "buf' = memcpy buf op s (p + 1) k"
  define c where "c = k - 1"
  have kc: "k = c + 1" and c32: "c < 32"
    using k by (simp_all add: c_def)
  have "dec_token s n max_out c (p + 1) op buf =
      Inr (Cont (p + 1 + (c + 1)) (op + (c + 1)) (memcpy buf op s (p + 1) (c + 1)))"
    using bnd c32 unfolding kc
    by (simp add: dec_token_def dec_literal_def copy_in_def Let_def)
  then have t: "dec_token s n max_out (k - 1) (p + 1) op buf =
      Inr (Cont (p + 1 + k) (op + k) buf')"
    unfolding buf'_def c_def [symmetric] kc [symmetric] .
  have "dec_from s n max_out p op buf = dec_loop s n max_out (k - 1) (p + 1) op buf"
    using nb rd c by (simp add: dec_from_def)
  also have "\<dots> = dec_from s n max_out (p + 1 + k) (op + k) buf'"
    by (rule dec_loop_Cont [OF t])
  finally have "dec_from s n max_out p op buf = dec_from s n max_out (p + 1 + k) (op + k) buf'" .
  moreover have "length buf' = length buf"
    unfolding buf'_def using bnd(2) ls by (intro length_memcpy) simp_all
  moreover have "take (op + k) buf' = take op buf @ bs"
    unfolding buf'_def bs [symmetric] using bnd(2) ls by (intro take_memcpy) simp_all
  ultimately show ?thesis by blast
qed

lemma literals_decode:
  assumes "holds_at s p (literals k x a)" "a + k \<le> length x"
    "p + length (literals k x a) \<le> n"
    "a + k \<le> length buf" "int (a + k) \<le> max_out" "take a buf = take a x"
  shows "\<exists>buf'. dec_from s n max_out p a buf =
            dec_from s n max_out (p + length (literals k x a)) (a + k) buf'
           \<and> length buf' = length buf \<and> take (a + k) buf' = take (a + k) x"
  using assms
proof (induction k x a arbitrary: p buf rule: literals.induct)
  case (1 runs x a)
  show ?case
  proof (cases "runs \<ge> 32")
    case True
    define bs where "bs = take 32 (drop a x)"
    define L' where "L' = literals (runs - 32) x (a + 32)"
    have L: "literals runs x a = (of_nat (32 - 1) # bs) @ L'"
      using True by (subst literals.simps) (simp add: bs_def L'_def)
    have lbs: "length bs = 32"
      using True "1.prems"(2) by (simp add: bs_def)
    have h1: "holds_at s p (of_nat (32 - 1) # bs)" and h2: "holds_at s (p + 33) L'"
      using holds_at_append [of s p "of_nat (32 - 1) # bs" L'] "1.prems"(1) L lbs by simp_all
    have lenL: "length (literals runs x a) = 33 + length L'"
      using L lbs by simp
    have k32: "(1::nat) \<le> 32" "(32::nat) \<le> 32"
      by simp_all
    have bnd: "p + 1 + 32 \<le> n" "a + 32 \<le> length buf" "int (a + 32) \<le> max_out"
      using "1.prems"(3,4,5) True lenL by simp_all
    obtain buf1 where b1: "dec_from s n max_out p a buf = dec_from s n max_out (p + 1 + 32) (a + 32) buf1"
      "length buf1 = length buf" "take (a + 32) buf1 = take a buf @ bs"
      using literal_token [OF k32 h1 lbs bnd] by blast
    have t1: "take (a + 32) buf1 = take (a + 32) x"
      using b1(3) "1.prems"(6) by (simp add: bs_def take_add_split)
    have e1: "p + 1 + 32 = p + 33"
      by simp
    have e2: "p + length (literals runs x a) = p + 33 + length L'"
      using lenL by simp
    have e3: "a + runs = a + 32 + (runs - 32)"
      using True by simp
    have "\<exists>buf'. dec_from s n max_out (p + 33) (a + 32) buf1 =
            dec_from s n max_out (p + 33 + length (literals (runs - 32) x (a + 32)))
              (a + 32 + (runs - 32)) buf'
           \<and> length buf' = length buf1
           \<and> take (a + 32 + (runs - 32)) buf' = take (a + 32 + (runs - 32)) x"
      using True "1.prems"(2,3,4,5) lenL b1(2) h2
      by (intro "1.IH" [OF _ _ _ _ _ _ t1]) (simp_all add: L'_def)
    then obtain buf2 where b2: "dec_from s n max_out (p + 33) (a + 32) buf1 =
            dec_from s n max_out (p + 33 + length L') (a + 32 + (runs - 32)) buf2"
      "length buf2 = length buf1"
      "take (a + 32 + (runs - 32)) buf2 = take (a + 32 + (runs - 32)) x"
      unfolding L'_def by blast
    have "dec_from s n max_out p a buf =
        dec_from s n max_out (p + 33 + length L') (a + 32 + (runs - 32)) buf2"
      by (simp only: b1(1) e1 b2(1))
    then show ?thesis
      unfolding e2 e3 using b2(2,3) b1(2) by auto
  next
    case False
    show ?thesis
    proof (cases "runs = 0")
      case True
      then have "literals runs x a = []"
        by (subst literals.simps) simp
      then show ?thesis
        using True "1.prems"(6) by auto
    next
      case nz: False
      define bs where "bs = take runs (drop a x)"
      have L: "literals runs x a = of_nat (runs - 1) # bs"
        using False nz by (subst literals.simps) (simp add: bs_def)
      have lbs: "length bs = runs"
        using "1.prems"(2) by (simp add: bs_def)
      have kr: "1 \<le> runs" "runs \<le> 32"
        using False nz by simp_all
      have h: "holds_at s p (of_nat (runs - 1) # bs)"
        using "1.prems"(1) L by simp
      have bnd: "p + 1 + runs \<le> n" "a + runs \<le> length buf" "int (a + runs) \<le> max_out"
        using "1.prems"(3,4,5) L lbs by simp_all
      obtain buf1 where b1: "dec_from s n max_out p a buf =
            dec_from s n max_out (p + 1 + runs) (a + runs) buf1"
        "length buf1 = length buf" "take (a + runs) buf1 = take a buf @ bs"
        using literal_token [OF kr h lbs bnd] by blast
      have t: "take (a + runs) buf1 = take (a + runs) x"
        using b1(3) "1.prems"(6) by (simp add: bs_def take_add_split)
      have e: "p + length (literals runs x a) = p + 1 + runs"
        using L lbs by simp
      show ?thesis
        unfolding e using b1(1,2) t by blast
    qed
  qed
qed

lemma divmod32:
  fixes y :: nat
  assumes "y < 32"
  shows "(c * 32 + y) div 32 = c" "(c * 32 + y) mod 32 = y"
  using assms by auto

lemma match_chunks_wire:
  assumes "1 \<le> len" "len \<le> 262" "d < 8192" "holds_at s p (match_chunks len d)"
  shows "32 \<le> unat (s ! p) \<and> unat (s ! p) < 256 \<and>
         wire_in (unat (s ! p)) + 1 = length (match_chunks len d) \<and>
         wire_len s (unat (s ! p)) (p + 1) = len + 2 \<and>
         wire_dist s (unat (s ! p)) (p + 1) = d + 1"
proof -
  have d32: "d div 256 < 32" using assms(3) by simp
  let ?c = "if len < 7 then len else 7"
  have c: "?c * 32 OR d div 256 = ?c * 32 + d div 256"
    using d32 by (rule or_shift5)
  have clt: "?c * 32 + d div 256 < 256"
    using d32 by (auto split: if_splits)
  have lo: "unat (of_nat (d mod 256) :: byte) = d mod 256"
    by (rule unat_byte) simp
  show ?thesis
  proof (cases "len < 7")
    case True
    have M: "match_chunks len d = [of_nat (len * 32 + d div 256), of_nat (d mod 256)]"
      using assms(2) c True by (simp add: match_chunks_single)
    have s0: "s ! p = of_nat (len * 32 + d div 256)" and s1: "s ! (p + 1) = of_nat (d mod 256)"
      using holds_at_nth [OF assms(4), of 0] holds_at_nth [OF assms(4), of 1] M by simp_all
    have u: "unat (s ! p) = len * 32 + d div 256"
      unfolding s0 using clt True by (intro unat_byte) simp
    have dv: "(len * 32 + d div 256) div 32 = len" "(len * 32 + d div 256) mod 32 = d div 256"
      using d32 by auto
    have w: "wire_in (len * 32 + d div 256) = 1"
      using True assms(1) dv by (simp add: wire_in_def)
    show ?thesis
      unfolding u using True assms(1) dv w M s1 lo clt
      by (simp add: wire_len_def wire_dist_def)
  next
    case False
    define e where "e = len - 7"
    have e: "e < 256" "len = e + 7"
      using assms False by (simp_all add: e_def)
    have M: "match_chunks len d = [of_nat (7 * 32 + d div 256), of_nat e, of_nat (d mod 256)]"
      using assms(2) c False by (simp add: match_chunks_single e_def)
    have s0: "s ! p = of_nat (7 * 32 + d div 256)" and s1: "s ! (p + 1) = of_nat e"
      and s2: "s ! (p + 2) = of_nat (d mod 256)"
      using holds_at_nth [OF assms(4), of 0] holds_at_nth [OF assms(4), of 1]
        holds_at_nth [OF assms(4), of 2] M by simp_all
    have u: "unat (s ! p) = 7 * 32 + d div 256"
      unfolding s0 using clt False by (intro unat_byte) simp
    have ue: "unat (of_nat e :: byte) = e"
      by (rule unat_byte [OF e(1)])
    have dv: "(7 * 32 + d div 256) div 32 = 7" "(7 * 32 + d div 256) mod 32 = d div 256"
      using divmod32 [OF d32, of 7] by simp_all
    have w: "wire_in (7 * 32 + d div 256) = 2"
      using dv by (simp add: wire_in_def)
    show ?thesis
      unfolding u using dv w M s1 s2 lo ue e(2) d32
      by (simp add: wire_len_def wire_dist_def)
  qed
qed

lemma match_token:
  assumes len: "1 \<le> len" "len \<le> 262" and d: "d < 8192"
    and tok: "holds_at s p (match_chunks len d)"
    and bnd: "p + length (match_chunks len d) \<le> n"
    and cp: "d + 1 \<le> a" "a + (len + 2) \<le> length buf" "int (a + (len + 2)) \<le> max_out"
      "a + (len + 2) \<le> length x" "take a buf = take a x"
      "\<forall>i<len + 2. x ! (a + i) = x ! (a + i - (d + 1))"
  shows "\<exists>buf'. dec_from s n max_out p a buf =
            dec_from s n max_out (p + length (match_chunks len d)) (a + (len + 2)) buf'
           \<and> length buf' = length buf \<and> take (a + (len + 2)) buf' = take (a + (len + 2)) x"
proof -
  define ctrl where "ctrl = unat (s ! p)"
  note w = match_chunks_wire [OF len d tok, folded ctrl_def]
  have c32: "32 \<le> ctrl" and win: "wire_in ctrl + 1 = length (match_chunks len d)"
    and wlen: "wire_len s ctrl (p + 1) = len + 2" and wdist: "wire_dist s ctrl (p + 1) = d + 1"
    using w by simp_all
  have wpos: "1 \<le> wire_in ctrl"
    by (rule wire_in_pos)
  have pn: "p + 1 + wire_in ctrl \<le> n"
    using bnd win by simp
  have nb: "\<not> p > ip_bound n"
    using pn wpos by (simp add: ip_bound_def)
  have rd: "read_in s n p = Inr (s ! p)"
    using pn by (simp add: read_in_def)
  have h: "match_header s n ctrl (p + 1) =
      Inr (Some (len + 2, d + 1, p + 1 + wire_in ctrl))"
    using match_header_wire(1) [OF c32 _ pn, of s] wlen wdist by simp
  obtain buf' where cc: "copy_chunks buf max_out (len + 2) (d + 1) a (int a - int (d + 1)) =
        Inr (a + (len + 2), buf')"
    and lb: "length buf' = length buf" and tb: "take (a + (len + 2)) buf' = take (a + (len + 2)) x"
    using copy_chunks_copy [OF _ cp(1,2,3,4,5,6)] by auto
  have chk: "\<not> (int a + int (len + 2) > max_out \<or> int a < int (d + 1))"
    using cp(1,3) by simp
  have dm: "dec_match s n max_out ctrl (p + 1) a buf =
     (if int a + int (len + 2) > max_out \<or> int a < int (d + 1) then Inr (Stop buf)
      else case copy_chunks buf max_out (len + 2) (d + 1) a (int a - int (d + 1)) of
             Inl f \<Rightarrow> Inl f
           | Inr (op', out') \<Rightarrow> Inr (Cont (p + 1 + wire_in ctrl) op' out'))"
    by (rule dec_match_Some [OF h])
  have "dec_match s n max_out ctrl (p + 1) a buf =
      Inr (Cont (p + 1 + wire_in ctrl) (a + (len + 2)) buf')"
    unfolding dm using chk cc by simp
  then have t: "dec_token s n max_out ctrl (p + 1) a buf =
      Inr (Cont (p + 1 + wire_in ctrl) (a + (len + 2)) buf')"
    unfolding dec_token_def using c32 by simp
  have "dec_from s n max_out p a buf = dec_loop s n max_out ctrl (p + 1) a buf"
    using nb rd by (simp add: dec_from_def ctrl_def)
  also have "\<dots> = dec_from s n max_out (p + 1 + wire_in ctrl) (a + (len + 2)) buf'"
    by (rule dec_loop_Cont [OF t])
  finally have f: "dec_from s n max_out p a buf =
      dec_from s n max_out (p + 1 + wire_in ctrl) (a + (len + 2)) buf'" .
  have "p + 1 + wire_in ctrl = p + length (match_chunks len d)"
    using win by linarith
  then have "dec_from s n max_out p a buf =
      dec_from s n max_out (p + length (match_chunks len d)) (a + (len + 2)) buf'"
    using f by (simp only:)
  then show ?thesis
    using lb tb by blast
qed

lemma match_decode:
  assumes "1 \<le> len" "d < 8192" "holds_at s p (match_chunks len d)"
    "p + length (match_chunks len d) \<le> n"
    "d + 1 \<le> a" "a + (len + 2) \<le> length buf" "int (a + (len + 2)) \<le> max_out"
    "a + (len + 2) \<le> length x" "take a buf = take a x"
    "\<forall>i<len + 2. x ! (a + i) = x ! (a + i - (d + 1))"
  shows "\<exists>buf'. dec_from s n max_out p a buf =
            dec_from s n max_out (p + length (match_chunks len d)) (a + (len + 2)) buf'
           \<and> length buf' = length buf \<and> take (a + (len + 2)) buf' = take (a + (len + 2)) x"
  using assms
proof (induction len arbitrary: p a buf rule: less_induct)
  case (less len)
  show ?case
  proof (cases "len \<le> 262")
    case True
    show ?thesis
      by (rule match_token [OF less.prems(1) True less.prems(2-10)])
  next
    case False
    define C where "C = match_chunks 260 d"
    define M' where "M' = match_chunks (len - 262) d"
    have lenC: "length C = 3"
      using less.prems(2) by (simp add: C_def match_chunks_260)
    have M: "match_chunks len d = C @ M'"
      using False less.prems(2) by (simp add: match_chunks_long match_chunks_260 C_def M'_def)
    have hC: "holds_at s p C" and hM': "holds_at s (p + 3) M'"
      using holds_at_append [of s p C M'] less.prems(3) M lenC by simp_all
    have c1: "(1::nat) \<le> 260" "(260::nat) \<le> 262"
      by simp_all
    have bC: "p + length (match_chunks 260 d) \<le> n"
      using less.prems(4) M lenC by (simp add: C_def)
    have cp: "a + (260 + 2) \<le> length buf" "int (a + (260 + 2)) \<le> max_out"
      "a + (260 + 2) \<le> length x"
      using False less.prems(6,7,8) by simp_all
    have per1: "\<forall>i<260 + 2. x ! (a + i) = x ! (a + i - (d + 1))"
      using less.prems(10) False by simp
    obtain buf1 where b1: "dec_from s n max_out p a buf =
            dec_from s n max_out (p + length (match_chunks 260 d)) (a + (260 + 2)) buf1"
      "length buf1 = length buf" "take (a + (260 + 2)) buf1 = take (a + (260 + 2)) x"
      using match_token [OF c1 less.prems(2) hC [unfolded C_def] bC less.prems(5) cp
          less.prems(9) per1] by blast
    have lt: "len - 262 < len" and l1: "1 \<le> len - 262"
      using False by simp_all
    have per2: "\<forall>i<len - 262 + 2. x ! (a + (260 + 2) + i) = x ! (a + (260 + 2) + i - (d + 1))"
    proof (intro allI impI)
      fix i assume "i < len - 262 + 2"
      then have "262 + i < len + 2" using False by simp
      then have "x ! (a + (262 + i)) = x ! (a + (262 + i) - (d + 1))"
        using less.prems(10) by blast
      then show "x ! (a + (260 + 2) + i) = x ! (a + (260 + 2) + i - (d + 1))"
        by (simp add: add.assoc)
    qed
    have e: "a + (260 + 2) + (len - 262 + 2) = a + (len + 2)"
      using False by simp
    have pre: "p + 3 + length (match_chunks (len - 262) d) \<le> n" "d + 1 \<le> a + (260 + 2)"
      "a + (260 + 2) + (len - 262 + 2) \<le> length buf1"
      "int (a + (260 + 2) + (len - 262 + 2)) \<le> max_out"
      "a + (260 + 2) + (len - 262 + 2) \<le> length x"
      using less.prems(4,5,6,7,8) M lenC b1(2) unfolding e M'_def by simp_all
    obtain buf2 where b2: "dec_from s n max_out (p + 3) (a + (260 + 2)) buf1 =
            dec_from s n max_out (p + 3 + length (match_chunks (len - 262) d))
              (a + (260 + 2) + (len - 262 + 2)) buf2"
      "length buf2 = length buf1"
      "take (a + (260 + 2) + (len - 262 + 2)) buf2 = take (a + (260 + 2) + (len - 262 + 2)) x"
      using less.IH [OF lt l1 less.prems(2) hM' [unfolded M'_def] pre b1(3) per2] by blast
    have p3: "p + length (match_chunks 260 d) = p + 3"
      using lenC by (simp add: C_def)
    have pe: "p + 3 + length (match_chunks (len - 262) d) = p + length (match_chunks len d)"
      using M lenC by (simp add: M'_def)
    have "dec_from s n max_out p a buf =
        dec_from s n max_out (p + length (match_chunks len d)) (a + (len + 2)) buf2"
      using b1(1) b2(1) unfolding p3 pe e by simp
    then show ?thesis
      using b2(2,3) b1(2) unfolding e by auto
  qed
qed

lemma literals_0: "literals 0 x a = []"
  by (subst literals.simps) simp

lemma good_decode:
  assumes "good x n a es a'"
  shows "holds_at s p (concat (map (encode x) es)) \<Longrightarrow>
    p + length (concat (map (encode x) es)) \<le> N \<Longrightarrow>
    n \<le> length x \<Longrightarrow> n \<le> length buf \<Longrightarrow> int n \<le> max_out \<Longrightarrow> take a buf = take a x \<Longrightarrow>
    \<exists>buf'. dec_from s N max_out p a buf =
        dec_from s N max_out (p + length (concat (map (encode x) es))) a' buf'
      \<and> length buf' = length buf \<and> take a' buf' = take a' x"
  using assms
proof (induction arbitrary: p buf rule: good.induct)
  case (good_Nil a)
  then show ?case by auto
next
  case (good_group a k j len d es a')
  define Lk where "Lk = literals k x a"
  define Lj where "Lj = literals j x (a + k)"
  define M where "M = match_chunks len (d - 1)"
  define R where "R = concat (map (encode x) es)"
  note vm = good_group.hyps(1) [unfolded valid_match_def]
  have d0: "1 \<le> d \<and> d < 8192"
    using vm by blast
  then have d: "1 \<le> d" "d \<le> 8192" "d - 1 < 8192" "d - 1 + 1 = d"
    by linarith+
  have ek: "concat (map (encode x) (if 0 < k then [Literals k a] else [])) = Lk"
    by (cases "0 < k") (simp_all add: Lk_def literals_0)
  have ej: "concat (map (encode x) (if 0 < j then [Literals j (a + k)] else [])) = Lj"
    by (cases "0 < j") (simp_all add: Lj_def literals_0)
  have em: "concat (map (encode x) (Match len d # es)) = M @ R"
    using match_in_range(1) [OF d(1,2), of len] by (simp add: M_def R_def)
  have E: "concat (map (encode x)
      ((if 0 < k then [Literals k a] else []) @ (if 0 < j then [Literals j (a + k)] else [])
        @ Match len d # es)) = Lk @ Lj @ M @ R"
    by (simp only: map_append concat_append ek ej em)
  have h: "holds_at s p (Lk @ Lj @ M @ R)" and top: "p + length (Lk @ Lj @ M @ R) \<le> N"
    using good_group.prems(1,2) unfolding E by simp_all
  have hk: "holds_at s p Lk" and h1: "holds_at s (p + length Lk) (Lj @ M @ R)"
    using holds_at_append [OF h] by simp_all
  have hj: "holds_at s (p + length Lk) Lj"
    and h2: "holds_at s (p + length Lk + length Lj) (M @ R)"
    using holds_at_append [OF h1] by simp_all
  have hm: "holds_at s (p + length Lk + length Lj) M"
    and hr: "holds_at s (p + length Lk + length Lj + length M) R"
    using holds_at_append [OF h2] by simp_all
  have fin: "a + k + j + len + 2 \<le> n"
    using vm by simp
  note nx = good_group.prems(3) and nb = good_group.prems(4) and nm = good_group.prems(5)
  obtain buf1 where b1: "dec_from s N max_out p a buf =
        dec_from s N max_out (p + length Lk) (a + k) buf1"
    "length buf1 = length buf" "take (a + k) buf1 = take (a + k) x"
    using literals_decode [of s p k x a N buf max_out] hk top fin nx nb nm good_group.prems(6)
    unfolding Lk_def by auto
  obtain buf2 where b2: "dec_from s N max_out (p + length Lk) (a + k) buf1 =
        dec_from s N max_out (p + length Lk + length Lj) (a + k + j) buf2"
    "length buf2 = length buf1" "take (a + k + j) buf2 = take (a + k + j) x"
    using literals_decode [of s "p + length Lk" j x "a + k" N buf1 max_out] hj top fin nx nb nm
      b1(2,3)
    unfolding Lj_def by auto
  have per: "\<forall>i<len + 2. x ! (a + k + j + i) = x ! (a + k + j + i - (d - 1 + 1))"
    using vm d(4) by simp
  have len1: "1 \<le> len" using vm by simp
  have pre: "p + length Lk + length Lj + length (match_chunks len (d - 1)) \<le> N"
    "d - 1 + 1 \<le> a + k + j" "a + k + j + (len + 2) \<le> length buf2"
    "int (a + k + j + (len + 2)) \<le> max_out" "a + k + j + (len + 2) \<le> length x"
    using top fin nx nb nm b1(2) b2(2) vm d(4) unfolding M_def by simp_all
  obtain buf3 where b3: "dec_from s N max_out (p + length Lk + length Lj) (a + k + j) buf2 =
        dec_from s N max_out (p + length Lk + length Lj + length M) (a + k + j + (len + 2)) buf3"
    "length buf3 = length buf2"
    "take (a + k + j + (len + 2)) buf3 = take (a + k + j + (len + 2)) x"
    using match_decode [OF len1 d(3) hm [unfolded M_def] pre b2(3) per]
    unfolding M_def by blast
  have e: "a + k + j + (len + 2) = a + k + j + len + 2"
    by simp
  have pre4: "p + length Lk + length Lj + length M + length (concat (map (encode x) es)) \<le> N"
    "n \<le> length buf3"
    using top nb b1(2) b2(2) b3(2) by (simp_all add: R_def)
  obtain buf4 where b4: "dec_from s N max_out (p + length Lk + length Lj + length M)
        (a + k + j + len + 2) buf3 =
      dec_from s N max_out (p + length Lk + length Lj + length M + length R) a' buf4"
    "length buf4 = length buf3" "take a' buf4 = take a' x"
    using good_group.IH [OF hr [unfolded R_def] pre4(1) nx pre4(2) nm b3(3) [unfolded e]]
    unfolding R_def by blast
  have pe: "p + length Lk + length Lj + length M + length R = p + length (Lk @ Lj @ M @ R)"
    by simp
  have "dec_from s N max_out p a buf =
      dec_from s N max_out (p + length (Lk @ Lj @ M @ R)) a' buf4"
    using b1(1) b2(1) b3(1) b4(1) unfolding e pe by simp
  then show ?case
    unfolding E using b1(2) b2(2) b3(2) b4(2,3) by auto
qed

lemma dec_from_end:
  assumes "1 \<le> N"
  shows "dec_from s N max_out N op buf = Inr (int op, buf)"
  using assms by (simp add: dec_from_def ip_bound_def)

lemma decompress_dec_from:
  assumes "0 < N" "unat (s ! 0) < 32"
  shows "lz77_decompress s (int N) obuf max_out = dec_from s N max_out 0 0 obuf"
proof -
  have "unat (s ! 0 AND 31) = unat (s ! 0)"
    using assms(2) by (simp add: unat_and_31)
  then show ?thesis
    using assms(1) by (simp add: lz77_decompress_def dec_from_def read_in_def)
qed

text \<open>The bytes that \<open>lz77_compress\<close> produces for a positive length.\<close>

lemma compress_bytes:
  assumes "0 < n" "n < 2 ^ 31" "n \<le> length x"
  defines "bytes \<equiv> (if n < 13 then literals n x 0
      else concat (map (encode x) (fst (compress_emits x n))))"
  shows "length bytes \<le> n + n div 32 + 1"
    and "\<exists>k more. bytes = literals k x 0 @ more \<and> 1 \<le> k \<and> k \<le> n"
    and "holds_at s 0 bytes \<Longrightarrow> length bytes \<le> N \<Longrightarrow> n \<le> length buf \<Longrightarrow>
         int n \<le> max_out \<Longrightarrow>
         \<exists>buf'. dec_from s N max_out 0 0 buf = dec_from s N max_out (length bytes) n buf'
           \<and> length buf' = length buf \<and> take n buf' = take n x"
proof -
  have n32: "n < 2 ^ 32"
    using assms(2) by simp
  show "length bytes \<le> n + n div 32 + 1"
  proof (cases "n < 13")
    case True
    then show ?thesis
      using length_literals_le [of n x 0] by (simp add: bytes_def)
  next
    case False
    then show ?thesis
      using compress_emits_size [OF _ n32, of x "fst (compress_emits x n)"
          "snd (compress_emits x n)"]
      by (simp add: bytes_def)
  qed
  show "\<exists>k more. bytes = literals k x 0 @ more \<and> 1 \<le> k \<and> k \<le> n"
  proof (cases "n < 13")
    case True
    then have "bytes = literals n x 0 @ []"
      by (simp add: bytes_def)
    then show ?thesis
      using assms(1) by (metis Suc_leI le_refl One_nat_def)
  next
    case False
    then obtain k es' where "fst (compress_emits x n) = Literals k 0 # es'" "2 \<le> k" "k \<le> n"
      using compress_emits_first [of x n "fst (compress_emits x n)" "snd (compress_emits x n)"]
      by auto
    then have "bytes = literals k x 0 @ concat (map (encode x) es')" "1 \<le> k" "k \<le> n"
      using False by (simp_all add: bytes_def)
    then show ?thesis by blast
  qed
  show "\<exists>buf'. dec_from s N max_out 0 0 buf = dec_from s N max_out (length bytes) n buf'
           \<and> length buf' = length buf \<and> take n buf' = take n x"
    if h: "holds_at s 0 bytes" and top: "length bytes \<le> N" and nb: "n \<le> length buf"
      and nm: "int n \<le> max_out"
  proof (cases "n < 13")
    case True
    then have b: "bytes = literals n x 0"
      by (simp add: bytes_def)
    show ?thesis
      using literals_decode [of s 0 n x 0 N buf max_out] h top assms(3) nb nm
      unfolding b by simp
  next
    case False
    obtain es0 a where es: "fst (compress_emits x n) = es0 @ [Literals (n - a) a]"
      and g: "good x n 0 es0 a"
      using compress_emits_good [of x n "fst (compress_emits x n)" "snd (compress_emits x n)"] n32
      by auto
    define E where "E = concat (map (encode x) es0)"
    define L where "L = literals (n - a) x a"
    have b: "bytes = E @ L"
      using False es by (simp add: bytes_def E_def L_def)
    have an: "a \<le> n"
      using good_final [OF g] by simp
    have hE: "holds_at s 0 E" and hL: "holds_at s (0 + length E) L"
      using holds_at_append [of s 0 E L] h b by simp_all
    have topE: "0 + length (concat (map (encode x) es0)) \<le> N"
      using top b by (simp add: E_def)
    obtain buf1 where b1: "dec_from s N max_out 0 0 buf = dec_from s N max_out (0 + length E) a buf1"
      "length buf1 = length buf" "take a buf1 = take a x"
      using good_decode [OF g hE [unfolded E_def] topE assms(3) nb nm] unfolding E_def by auto
    have pre: "a + (n - a) \<le> length x" "0 + length E + length (literals (n - a) x a) \<le> N"
      "a + (n - a) \<le> length buf1" "int (a + (n - a)) \<le> max_out"
      using an assms(3) top b nb nm b1(2) by (simp_all add: L_def)
    obtain buf2 where b2: "dec_from s N max_out (0 + length E) a buf1 =
        dec_from s N max_out (0 + length E + length (literals (n - a) x a)) (a + (n - a)) buf2"
      "length buf2 = length buf1" "take (a + (n - a)) buf2 = take (a + (n - a)) x"
      using literals_decode [OF hL [unfolded L_def] pre b1(3)] by blast
    have e: "a + (n - a) = n" "0 + length E + length (literals (n - a) x a) = length bytes"
      using an b by (simp_all add: L_def)
    show ?thesis
      using b1(1,2) b2 unfolding e by auto
  qed
qed

text \<open>
  C1: for every byte sequence \<open>x\<close> (the empty one included) whose length fits the
  \<open>int\<close> parameter, \<open>lz77_compress\<close> run on \<open>x\<close> with an output buffer of at least
  \<open>length x + length x div 32 + 128\<close> bytes and any workspace returns a length \<open>r\<close> and
  a buffer, and \<open>lz77_decompress\<close> run on that buffer with declared length \<open>r\<close> and a
  capacity of at least \<open>length x\<close> returns \<open>length x\<close>, the first \<open>length x\<close> bytes of its
  output being \<open>x\<close>.
\<close>

theorem round_trip:
  assumes "length x < 2 ^ 31" "length x + length x div 32 + 128 \<le> length cbuf"
    "int (length x) \<le> max_out" "max_out \<le> int (length obuf)"
  shows "\<exists>r cbuf' wm'.
           lz77_compress x (int (length x)) cbuf workmem = Inr (r, cbuf', wm') \<and>
           (\<exists>obuf'. lz77_decompress cbuf' r obuf max_out = Inr (int (length x), obuf') \<and>
              take (length x) obuf' = x \<and> length obuf' = length obuf)"
proof (cases "length x = 0")
  case True
  then show ?thesis
    by (simp add: lz77_compress_def lz77_decompress_def)
next
  case False
  define n where "n = length x"
  have n: "0 < n" "n < 2 ^ 31" "n \<le> length x"
    using False assms(1) by (simp_all add: n_def)
  define bytes where "bytes = (if n < 13 then literals n x 0
      else concat (map (encode x) (fst (compress_emits x n))))"
  define wm where "wm = (if n < 13 then workmem else snd (compress_emits x n))"
  define N where "N = length bytes"
  define s where "s = bytes @ drop N cbuf"
  note cb = compress_bytes [OF n, folded bytes_def]
  have fit: "N \<le> length cbuf"
    using cb(1) assms(2) by (simp add: N_def n_def)
  have comp: "lz77_compress x (int (length x)) cbuf workmem = Inr (int N, s, wm)"
  proof (cases "n < 13")
    case True
    then have "bytes = literals n x 0" "wm = workmem"
      by (simp_all add: bytes_def wm_def)
    then show ?thesis
      using n(1) fit True
      by (simp add: lz77_compress_def store_out_def n_def [symmetric] s_def N_def)
  next
    case False
    obtain es htab where ce: "compress_emits x n = (es, htab)"
      by (cases "compress_emits x n")
    then have "bytes = concat (map (encode x) es)" "wm = htab"
      using False by (simp_all add: bytes_def wm_def)
    then show ?thesis
      using n(1) fit False ce
      by (simp add: lz77_compress_def store_out_def n_def [symmetric] s_def N_def)
  qed
  obtain k more where k: "bytes = literals k x 0 @ more" "1 \<le> k" "k \<le> n"
    using cb(2) by blast
  have ft: "unat (hd s) + 1 = min k 32"
    using first_token [OF k(1,2) _ s_def [unfolded N_def]] k(3) n(3) by simp
  obtain rest where "literals k x 0 = of_nat (min k 32 - 1) # rest"
    using literals_first [OF k(2), of x 0] by auto
  then have ne: "bytes \<noteq> []"
    using k(1) by simp
  then have N1: "1 \<le> N" and s0: "s ! 0 = hd s"
    by (simp_all add: N_def s_def hd_conv_nth Suc_leI)
  have c32: "unat (s ! 0) < 32"
    using ft s0 by simp
  have hs: "holds_at s 0 bytes"
    by (simp add: holds_at_def s_def)
  have nb: "n \<le> length obuf"
    using assms(3,4) by (simp add: n_def)
  obtain buf' where b: "dec_from s N max_out 0 0 obuf = dec_from s N max_out N n buf'"
    "length buf' = length obuf" "take n buf' = take n x"
    using cb(3) [OF hs, of N obuf max_out] nb assms(3) by (auto simp: N_def n_def)
  have "lz77_decompress s (int N) obuf max_out = Inr (int n, buf')"
    using decompress_dec_from [OF _ c32, of N obuf max_out] N1 b(1) dec_from_end [OF N1]
    by simp
  then show ?thesis
    using comp b(2,3) by (simp add: n_def)
qed

section \<open>Distance of the emitted matches\<close>

text \<open>The first token that \<open>match\<close> writes carries the distance it was given.\<close>

lemma match_first_wire:
  assumes "1 \<le> len" "d < 8192"
  shows "match_chunks len d \<noteq> [] \<and> 32 \<le> unat (hd (match_chunks len d)) \<and>
         wire_dist (match_chunks len d) (unat (hd (match_chunks len d))) 1 = d + 1"
proof (cases "len \<le> 262")
  case True
  define t where "t = match_chunks len d"
  have ne: "t \<noteq> []"
    unfolding t_def by (subst match_chunks_single [OF True]) simp
  have h: "holds_at t 0 (match_chunks len d)"
    by (simp add: holds_at_def t_def)
  have hd: "hd t = t ! 0"
    using ne by (simp add: hd_conv_nth)
  show ?thesis
    using match_chunks_wire [OF assms(1) True assms(2) h] ne hd
    by (simp add: t_def)
next
  case False
  define c where "c = 7 * 32 + d div 256"
  define rest where "rest = match_chunks (len - (MAX_LEN - 2)) d"
  have t: "match_chunks len d = [of_nat c, of_nat 253, of_nat (d mod 256)] @ rest"
    using False by (subst match_chunks.simps) (simp add: c_def rest_def)
  have d32: "d div 256 < 32"
    using assms(2) by simp
  have c256: "c < 256"
    using d32 by (simp add: c_def)
  have uc: "unat (of_nat c :: byte) = c"
    using c256 by (rule unat_byte)
  have cd: "c div 32 = 7" "c mod 32 = d div 256"
    unfolding c_def using divmod32 [OF d32, of 7] by simp_all
  have lo: "unat (of_nat (d mod 256) :: byte) = d mod 256"
    by (rule unat_byte) simp
  have c32: "32 \<le> c" "\<not> c < 32"
    by (simp_all add: c_def)
  have "wire_dist (match_chunks len d) c 1 = d + 1"
    unfolding t using cd c32 lo by (simp add: wire_dist_def wire_in_def)
  then show ?thesis
    using c32 uc by (simp add: t)
qed

text \<open>A match token whose distance field is all ones, with enough output behind it.\<close>

lemma dec_token_8192:
  assumes "32 \<le> ctrl" "ctrl mod 32 = 31" "s ! (ip + wire_in ctrl - 1) = 0xFF"
    "1 \<le> ip" "ip + wire_in ctrl \<le> m" "8192 \<le> op" "int (op + wire_len s ctrl ip) \<le> max_out"
  shows "wire_dist s ctrl ip = 8192 \<and>
         (\<exists>buf'. dec_token s m max_out ctrl ip op buf =
            Inr (Cont (ip + wire_in ctrl) (op + wire_len s ctrl ip) buf'))"
proof -
  have wd: "wire_dist s ctrl ip = 8192"
    using assms(2,3) by (simp add: wire_dist_def)
  have nv: "\<not> violates s m max_out ctrl ip op"
    using assms(1,5,6,7) wd by (simp add: violates_def)
  have "ip < m"
    using assms(5) wire_in_pos [of ctrl] by simp
  then have "ctrl < 32 \<or> ip < m" by simp
  from dec_token_wire(2) [OF assms(4) this nv] wd show ?thesis
    by simp
qed

text \<open>
  C10: every call \<open>match(len, d)\<close> that the compressor makes on an input of fewer than
  \<open>2 ^ 31\<close> bytes has \<open>1 \<le> d \<le> 8191\<close>; the distance field it writes is \<open>d - 1 \<le> 8190\<close>
  and the token it writes reads back as a match at distance \<open>d\<close>. The decoder, for
  its part, accepts a token at distance 8192 when 8192 bytes of output precede it.
\<close>

theorem emitted_distance_ceiling:
  assumes "n < 2 ^ 31" "compress_emits inp n = (es, htab)" "Match len d \<in> set es"
  shows "1 \<le> d \<and> d \<le> 8191 \<and> 1 \<le> len \<and>
         match len d = match_chunks len (d - 1) \<and> d - 1 \<le> 8190 \<and>
         32 \<le> unat (hd (match len d)) \<and>
         wire_dist (match len d) (unat (hd (match len d))) 1 = d \<and>
         (\<forall>s m ctrl ip op buf max_out.
            32 \<le> ctrl \<and> ctrl mod 32 = 31 \<and> s ! (ip + wire_in ctrl - 1) = 0xFF \<and>
            1 \<le> ip \<and> ip + wire_in ctrl \<le> m \<and> 8192 \<le> op \<and>
            int (op + wire_len s ctrl ip) \<le> max_out \<longrightarrow>
            wire_dist s ctrl ip = 8192 \<and>
            (\<exists>buf'. dec_token s m max_out ctrl ip op buf =
               Inr (Cont (ip + wire_in ctrl) (op + wire_len s ctrl ip) buf')))"
proof -
  have n32: "n < 2 ^ 32"
    using assms(1) by simp
  obtain es0 a where es: "es = es0 @ [Literals (n - a) a]" and g: "good inp n 0 es0 a"
    using compress_emits_good [OF assms(2) n32] by blast
  have "Match len d \<in> set es0"
    using assms(3) es by simp
  then have r: "1 \<le> len \<and> 1 \<le> d \<and> d < MAX_DISTANCE"
    by (rule good_match_range [OF g])
  then have m: "match len d = match_chunks len (d - 1)"
    by (intro match_in_range(1)) simp_all
  have d1: "d - 1 < 8192" "d - 1 + 1 = d"
    using r by linarith+
  have len1: "1 \<le> len"
    using r by simp
  have w: "32 \<le> unat (hd (match len d))"
    "wire_dist (match len d) (unat (hd (match len d))) 1 = d"
    using match_first_wire [OF len1 d1(1)] d1(2) by (simp_all add: m)
  have rng: "1 \<le> d" "d \<le> 8191" "d - 1 \<le> 8190"
    using r by linarith+
  have dec: "\<forall>s m ctrl ip op buf max_out.
            32 \<le> ctrl \<and> ctrl mod 32 = 31 \<and> s ! (ip + wire_in ctrl - 1) = 0xFF \<and>
            1 \<le> ip \<and> ip + wire_in ctrl \<le> m \<and> 8192 \<le> op \<and>
            int (op + wire_len s ctrl ip) \<le> max_out \<longrightarrow>
            wire_dist s ctrl ip = 8192 \<and>
            (\<exists>buf'. dec_token s m max_out ctrl ip op buf =
               Inr (Cont (ip + wire_in ctrl) (op + wire_len s ctrl ip) buf'))"
  proof (intro allI impI)
    fix s :: "byte list" and m ctrl ip op :: nat and buf :: "byte list" and max_out :: int
    assume a: "32 \<le> ctrl \<and> ctrl mod 32 = 31 \<and> s ! (ip + wire_in ctrl - 1) = 0xFF \<and>
            1 \<le> ip \<and> ip + wire_in ctrl \<le> m \<and> 8192 \<le> op \<and>
            int (op + wire_len s ctrl ip) \<le> max_out"
    show "wire_dist s ctrl ip = 8192 \<and>
            (\<exists>buf'. dec_token s m max_out ctrl ip op buf =
               Inr (Cont (ip + wire_in ctrl) (op + wire_len s ctrl ip) buf'))"
      by (rule dec_token_8192) (use a in simp_all)
  qed
  show ?thesis
    by (intro conjI) (rule rng len1 m w dec)+
qed

section \<open>A worked input\<close>

text \<open>
  On the 27-byte input \<open>01 02 03\<close> repeated 9 times the compressor calls
  \<open>literals(3)\<close>, \<open>match(22, 3)\<close> and \<open>literals(0)\<close>, and writes the 7 bytes
  \<open>02 01 02 03 E0 0F 02\<close>.
\<close>

lemma abc27_emits: "fst (compress_emits abc27 27) = [Literals 3 0, Match 22 3, Literals 0 27]"
  by code_simp

lemma abc27_bytes:
  "concat (map (encode abc27) [Literals 3 0, Match 22 3, Literals 0 27]) =
   [2, 1, 2, 3, 224, 15, 2]"
  by code_simp

lemma abc27_compress:
  "\<exists>wm'. lz77_compress abc27 27 out workmem = store_out [2, 1, 2, 3, 224, 15, 2] out wm'"
proof -
  obtain es htab where ce: "compress_emits abc27 27 = (es, htab)"
    by (cases "compress_emits abc27 27")
  then have es: "es = [Literals 3 0, Match 22 3, Literals 0 27]"
    using abc27_emits by simp
  have "lz77_compress abc27 27 out workmem = store_out [2, 1, 2, 3, 224, 15, 2] out htab"
    using ce abc27_bytes by (simp add: lz77_compress_def es)
  then show ?thesis
    by blast
qed

lemma abc27_decompress:
  "lz77_decompress [2, 1, 2, 3, 224, 15, 2] 7 (replicate 27 0) 27 = Inr (27, abc27)"
  by code_simp

text \<open>
  C1 on that input, compressed into a buffer of \<open>27 + 0 + 128\<close> bytes and decompressed
  with capacity 27.
\<close>

theorem round_trip_witness:
  "\<exists>wm'. lz77_compress abc27 27 (replicate 155 0) (\<lambda>_. 0) =
            Inr (7, [2, 1, 2, 3, 224, 15, 2] @ replicate 148 0, wm') \<and>
     (\<exists>obuf'. lz77_decompress ([2, 1, 2, 3, 224, 15, 2] @ replicate 148 0) 7 (replicate 27 0) 27 =
            Inr (27, obuf') \<and> take 27 obuf' = abc27 \<and> length obuf' = 27)"
proof -
  have l: "length abc27 = 27"
    by (simp add: abc27_def)
  have h: "length abc27 < 2 ^ 31" "length abc27 + length abc27 div 32 + 128 \<le>
      length (replicate 155 (0 :: byte))" "int (length abc27) \<le> 27"
    "(27 :: int) \<le> int (length (replicate 27 (0 :: byte)))"
    by (simp_all add: l)
  obtain r cbuf' wm' obuf' where
    c: "lz77_compress abc27 (int (length abc27)) (replicate 155 0) (\<lambda>_. 0) = Inr (r, cbuf', wm')"
    and d: "lz77_decompress cbuf' r (replicate 27 0) 27 = Inr (int (length abc27), obuf')"
      "take (length abc27) obuf' = abc27" "length obuf' = length (replicate 27 (0 :: byte))"
    using round_trip [OF h, of "\<lambda>_. 0"] by blast
  obtain wm2 where "lz77_compress abc27 27 (replicate 155 0) (\<lambda>_. 0) =
      store_out [2, 1, 2, 3, 224, 15, 2] (replicate 155 0) wm2"
    using abc27_compress by blast
  then have "r = 7" "cbuf' = [2, 1, 2, 3, 224, 15, 2] @ replicate 148 0"
    using c by (simp_all add: l store_out_def)
  then show ?thesis
    using c d by (simp add: l)
qed

text \<open>
  C10 on that input: the one match has distance 3, written as \<open>E0 0F 02\<close>; and the
  token \<open>3F FF\<close>, met with 8192 bytes of output, is decoded at distance 8192.
\<close>

theorem emitted_distance_ceiling_witness:
  "Match 22 3 \<in> set (fst (compress_emits abc27 27)) \<and>
   match 22 3 = [224, 15, 2] \<and> (3::nat) \<le> 8191 \<and>
   wire_dist [224, 15, 2] 224 1 = 3 \<and>
   wire_dist [0, 63, 255] 63 2 = 8192 \<and>
   (\<exists>buf'. dec_token [0, 63, 255] 3 8195 63 2 8192 (replicate 8195 0) = Inr (Cont 3 8195 buf'))"
proof -
  have m: "Match 22 3 \<in> set (fst (compress_emits abc27 27))"
    by (simp add: abc27_emits)
  have n: "(27::nat) < 2 ^ 31"
    by simp
  have c: "compress_emits abc27 27 = (fst (compress_emits abc27 27), snd (compress_emits abc27 27))"
    by simp
  have e: "match 22 3 = [224, 15, 2]"
    by code_simp
  note t = emitted_distance_ceiling [OF n c m]
  note t7 = t [THEN conjunct2, THEN conjunct2, THEN conjunct2, THEN conjunct2, THEN conjunct2,
      THEN conjunct2]
  have w: "wire_in 63 = 1" "wire_len [0, 63, 255] 63 2 = 3"
    by (simp_all add: wire_in_def wire_len_def)
  have p: "(32::nat) \<le> 63 \<and> (63::nat) mod 32 = 31 \<and>
      [0, 63, 255 :: byte] ! (2 + wire_in 63 - 1) = 0xFF \<and> (1::nat) \<le> 2 \<and>
      2 + wire_in 63 \<le> (3::nat) \<and> (8192::nat) \<le> 8192 \<and>
      int (8192 + wire_len [0, 63, 255] 63 2) \<le> 8195"
    by (simp add: w)
  have a: "wire_dist [0, 63, 255] 63 2 = 8192 \<and>
      (\<exists>buf'. dec_token [0, 63, 255] 3 8195 63 2 8192 (replicate 8195 0) =
         Inr (Cont (2 + wire_in 63) (8192 + wire_len [0, 63, 255] 63 2) buf'))"
    by (rule t7 [THEN conjunct2, rule_format, OF p])
  have u: "unat (hd [224, 15, 2 :: byte]) = 224"
    by simp
  have b: "wire_dist [224, 15, 2] 224 1 = 3"
    using t7 [THEN conjunct1] unfolding e u .
  show ?thesis
    using m e a b by (simp add: w)
qed

text \<open>C6 on that input: the output starts with the literal run \<open>02 01 02 03\<close>.\<close>

theorem literal_lead_in_witness:
  "\<exists>wm'. lz77_compress abc27 27 (replicate 9 0) (\<lambda>_. 5)
            = Inr (7, [2, 1, 2, 3, 224, 15, 2, 0, 0], wm') \<and>
     unat (hd [2, 1, 2, 3, 224, 15, 2, 0, 0 :: byte]) < 32 \<and>
     unat (hd [2, 1, 2, 3, 224, 15, 2, 0, 0 :: byte]) + 1 \<le> nat 27 \<and>
     take (unat (hd [2, 1, 2, 3, 224, 15, 2, 0, 0 :: byte]) + 1) (tl [2, 1, 2, 3, 224, 15, 2, 0, 0])
       = take (unat (hd [2, 1, 2, 3, 224, 15, 2, 0, 0 :: byte]) + 1) abc27 \<and>
     2 \<le> unat (hd [2, 1, 2, 3, 224, 15, 2, 0, 0 :: byte]) + 1 \<and>
     (\<exists>k es. fst (compress_emits abc27 (nat 27)) = Literals k 0 # es \<and> 2 \<le> k)"
proof -
  obtain wm' where "lz77_compress abc27 27 (replicate 9 0) (\<lambda>_. 5)
            = store_out [2, 1, 2, 3, 224, 15, 2] (replicate 9 0) wm'"
    using abc27_compress by blast
  then have c: "lz77_compress abc27 27 (replicate 9 0) (\<lambda>_. 5)
            = Inr (7, [2, 1, 2, 3, 224, 15, 2, 0, 0], wm')"
    by (simp add: store_out_def numeral_eq_Suc)
  have p: "(0::int) < 27" and l: "nat 27 \<le> length abc27"
    by (simp_all add: abc27_def)
  show ?thesis
    using literal_lead_in [OF p l c] c by simp
qed

text \<open>C5 on that input, with an output buffer of \<open>27 + 0 + 128\<close> bytes.\<close>

theorem compressed_size_bound_witness:
  "\<exists>r out' wm'. lz77_compress abc27 27 (replicate 155 0) (\<lambda>_. 5) = Inr (r, out', wm') \<and>
      0 \<le> r \<and> r \<le> 27 + 27 div 32 + 128 \<and>
      length out' = length (replicate 155 (0 :: byte)) \<and>
      drop (nat r) out' = drop (nat r) (replicate 155 0)"
proof -
  have p: "(0::int) < 27" "(27::int) < 2 ^ 31"
    and l: "nat 27 + nat 27 div 32 + 128 \<le> length (replicate 155 (0 :: byte))"
    by simp_all
  show ?thesis
    by (rule compressed_size_bound [OF p l])
qed

end
